theory Spec2Isabelle
  imports Complex_Main
begin

section \<open>The data model of \<open>spaniel-observer.ts\<close>\<close>

text \<open>
  Numbers: ratios and geometry are rationals, timestamps and durations are integers
  (milliseconds, as \<open>Date.now()\<close> gives them). DOM elements, the string tokens stored in
  their \<open>__spanielId\<close> property and JavaScript objects are identified by natural numbers.
  A field that can hold \<open>null\<close> or \<open>undefined\<close> is an \<open>option\<close>; the \<open>any\<close> of a payload
  is a number or \<open>null\<close>. The fields have the source's names, with \<open>t_\<close> before those of a
  threshold and \<open>r_\<close> before the target and payload of a record, which entries have too.
\<close>

type_synonym elem = nat
type_synonym token = nat
type_synonym payload = "nat option"

record rect =
  rect_x :: rat
  rect_y :: rat
  rect_width :: rat
  rect_height :: rat

definition emptyRect :: rect where
  "emptyRect = \<lparr>rect_x = 0, rect_y = 0, rect_width = 0, rect_height = 0\<rparr>"

record spanielThreshold =
  t_label :: string
  t_ratio :: rat
  t_time :: "int option"

record intersectionObserverEntry =
  intersectionRatio :: rat
  time :: int
  rootBounds :: rect
  boundingClientRect :: rect
  intersectionRect :: rect
  target :: elem

record spanielObserverEntry = intersectionObserverEntry +
  duration :: int
  entering :: "bool option"
  label :: string
  payload :: payload

record spanielThresholdState =
  lastSatisfied :: bool
  lastEntry :: "intersectionObserverEntry option"
  threshold :: spanielThreshold
  lastVisible :: "int option"
  visible :: bool
  timeoutId :: "nat option"

text \<open>
  A record owns its threshold state objects: \<open>observe\<close> creates them with the record, and
  they are reached only through it and through the closures of their own timers. A
  threshold state object is therefore identified by its record object and its index.
\<close>

record spanielRecord =
  r_target :: elem
  r_payload :: payload
  thresholdStates :: "spanielThresholdState list"
  lastSeenEntry :: "intersectionObserverEntry option"

text \<open>
  A pending \<open>setTimeout\<close>: the time it was set, its delay, and what its closure captured,
  namely the threshold state object (the record object that owns it and its index there)
  and the entry built at the rising edge.
\<close>

record timer =
  setAt :: int
  delay :: int
  trid :: nat
  tidx :: nat
  tentry :: spanielObserverEntry

text \<open>
  The observer with its environment. \<open>recordStore\<close> keeps the insertion order of its keys
  (what \<open>Object.keys\<close> returns for string tokens) and refers to record objects by address;
  \<open>heap\<close> holds the record objects, also those that only a closure still refers to.
  \<open>calls\<close> logs the invocations of the user's callback, one batch each; \<open>work\<close> is the
  queue of the closures passed to \<open>scheduleWork\<close>, each holding its record object.
\<close>

record observer =
  paused :: bool
  queuedEntries :: "spanielObserverEntry list"
  recordStore :: "(token \<times> nat) list"
  thresholds :: "spanielThreshold list"
  heap :: "nat \<rightharpoonup> spanielRecord"
  timers :: "nat \<rightharpoonup> timer"
  work :: "nat list"
  calls :: "spanielObserverEntry list list"
  now :: int
  nextTimer :: nat
  nextRid :: nat
  nextToken :: token
  spanielId :: "elem \<rightharpoonup> token"

datatype error = TypeError

text \<open>An operation that throws leaves the observer as it was at the throw.\<close>

type_synonym outcome = "(error \<times> observer) + observer"

fun after :: "outcome \<Rightarrow> observer" where
  "after (Inl (e, w)) = w"
| "after (Inr w) = w"

section \<open>JavaScript primitives\<close>

text \<open>\<open>!!t.time\<close>: \<open>undefined\<close> and \<open>0\<close> are falsy.\<close>

definition hasTime :: "spanielThreshold \<Rightarrow> bool" where
  "hasTime t = (case t_time t of None \<Rightarrow> False | Some d \<Rightarrow> d \<noteq> 0)"

text \<open>\<open>time - state.lastVisible\<close>: in a subtraction \<open>null\<close> converts to \<open>0\<close>.\<close>

definition minusNullable :: "int \<Rightarrow> int option \<Rightarrow> int" where
  "minusNullable a b = a - (case b of None \<Rightarrow> 0 | Some v \<Rightarrow> v)"

text \<open>
  Modelled from the spec: \<open>entrySatisfiesRatio\<close> is imported from
  \<open>./intersection-observer\<close>, which is not among the sources. The spec gives
  \<open>ratioSatisfied = rawSample.ratio >= threshold.ratio\<close> (boundary-inclusive).
\<close>

definition entrySatisfiesRatio :: "intersectionObserverEntry \<Rightarrow> rat \<Rightarrow> bool" where
  "entrySatisfiesRatio entry r = (intersectionRatio entry \<ge> r)"

text \<open>
  \<open>Array.prototype.sort(comparefn)\<close> belongs to the JavaScript engine. It is modelled as
  the insertion sort that engines use for short arrays: each element moves left past
  every predecessor \<open>p\<close> with \<open>comparefn(p, element) > 0\<close>. With a consistent comparator
  this sorts, stably; with an inconsistent one ECMAScript leaves the order to the engine,
  and this is what the insertion sort makes of it.
  \<open>insertLeft\<close> takes the sorted prefix reversed (nearest predecessor first).
\<close>

fun insertLeft :: "('a \<Rightarrow> 'a \<Rightarrow> rat) \<Rightarrow> 'a \<Rightarrow> 'a list \<Rightarrow> 'a list" where
  "insertLeft comparefn element [] = [element]"
| "insertLeft comparefn element (p # ps) =
     (if comparefn p element > 0 then p # insertLeft comparefn element ps
      else element # p # ps)"

definition arraySort :: "('a \<Rightarrow> 'a \<Rightarrow> rat) \<Rightarrow> 'a list \<Rightarrow> 'a list" where
  "arraySort comparefn xs = rev (foldl (\<lambda>acc element. insertLeft comparefn element acc) [] xs)"

text \<open>
  \<open>array.forEach\<close> over objects that the callback changes, together with the surrounding
  state; the callback gets the index of its object.
\<close>

fun forEach :: "(nat \<Rightarrow> 's \<Rightarrow> 'w \<Rightarrow> 's \<times> 'w) \<Rightarrow> nat \<Rightarrow> 's list \<Rightarrow> 'w \<Rightarrow> 's list \<times> 'w" where
  "forEach f i [] w = ([], w)"
| "forEach f i (s # ss) w =
     (case f i s w of (s', w') \<Rightarrow>
        (case forEach f (Suc i) ss w' of (ss', w'') \<Rightarrow> (s' # ss', w'')))"

text \<open>\<open>clearTimeout(id)\<close>: the timer, if still pending, will not run; \<open>undefined\<close> clears nothing.\<close>

definition clearTimeout :: "nat option \<Rightarrow> observer \<Rightarrow> observer" where
  "clearTimeout tid w =
     (case tid of None \<Rightarrow> w | Some i \<Rightarrow> w\<lparr>timers := (timers w)(i := None)\<rparr>)"

text \<open>\<open>this.recordStore[key]\<close>, with the record object it refers to.\<close>

definition recordAt :: "observer \<Rightarrow> token \<Rightarrow> (nat \<times> spanielRecord) option" where
  "recordAt w k =
     (case map_of (recordStore w) k of None \<Rightarrow> None
      | Some rid \<Rightarrow> (case heap w rid of None \<Rightarrow> None | Some r \<Rightarrow> Some (rid, r)))"

text \<open>\<open>this.recordStore[element.__spanielId]\<close>; an element without the property has no record.\<close>

definition recordOf :: "observer \<Rightarrow> elem \<Rightarrow> (nat \<times> spanielRecord) option" where
  "recordOf w el = (case spanielId w el of None \<Rightarrow> None | Some k \<Rightarrow> recordAt w k)"

section \<open>The observer's methods\<close>

text \<open>
  The constructor. Its argument, the option \<open>threshold\<close>, is \<open>None\<close> when the option is
  missing: \<open>threshold.sort\<close> then throws. The comparator \<open>(t) => t.ratio\<close> returns its
  first argument's ratio. \<open>root\<close> and \<open>rootMargin\<close> only reach the intersection
  primitive and are left out. The user's callback is not called here: each invocation
  is logged in \<open>calls\<close>, and a callback that throws or calls back into the observer is
  outside this model. The clock starts at 0.
\<close>

definition ratioComparator :: "spanielThreshold \<Rightarrow> spanielThreshold \<Rightarrow> rat" where
  "ratioComparator t u = t_ratio t"

definition newObserver :: "spanielThreshold list \<Rightarrow> observer" where
  "newObserver ths =
     \<lparr>paused = False, queuedEntries = [], recordStore = [],
      thresholds = arraySort ratioComparator ths,
      heap = Map.empty, timers = Map.empty, work = [], calls = [], now = 0,
      nextTimer = 0, nextRid = 0, nextToken = 0, spanielId = Map.empty\<rparr>"

definition constructor :: "spanielThreshold list option \<Rightarrow> error + observer" where
  "constructor ths =
     (case ths of None \<Rightarrow> Inl TypeError | Some ts \<Rightarrow> Inr (newObserver ts))"

definition flushQueuedEntries :: "observer \<Rightarrow> observer" where
  "flushQueuedEntries w =
     (if length (queuedEntries w) > 0
      then w\<lparr>calls := calls w @ [queuedEntries w], queuedEntries := []\<rparr>
      else w)"

text \<open>
  \<open>generateSpanielEntry\<close> reads the payload from the record of the entry's target, the
  record its caller has just looked up under the same key; it is passed in here.
\<close>

definition generateSpanielEntry ::
  "spanielRecord \<Rightarrow> intersectionObserverEntry \<Rightarrow> spanielThresholdState \<Rightarrow> spanielObserverEntry" where
  "generateSpanielEntry record entry state =
     \<lparr>intersectionRatio = intersectionRatio entry, time = time entry,
      rootBounds = rootBounds entry, boundingClientRect = boundingClientRect entry,
      intersectionRect = intersectionRect entry, target = target entry,
      duration = 0, entering = None, label = t_label (threshold state),
      payload = r_payload record\<rparr>"

definition handleThresholdExiting ::
  "spanielObserverEntry \<Rightarrow> spanielThresholdState \<Rightarrow> observer \<Rightarrow> spanielThresholdState \<times> observer" where
  "handleThresholdExiting spanielEntry state w =
     (let hasTimeThreshold = hasTime (threshold state) in
      if lastSatisfied state \<and> (\<not> hasTimeThreshold \<or> (hasTimeThreshold \<and> visible state))
      then (state\<lparr>visible := False\<rparr>,
            clearTimeout (timeoutId state)
              (w\<lparr>queuedEntries := queuedEntries w @
                    [spanielEntry\<lparr>duration := minusNullable (time spanielEntry) (lastVisible state),
                                  entering := Some False\<rparr>]\<rparr>))
      else (state, clearTimeout (timeoutId state) w))"

text \<open>
  The callback of the \<open>forEach\<close> in \<open>handleRecordExiting\<close>, for the state at index \<open>i\<close>.
  \<open>handleRecordExiting\<close> gets the record object by its address; a closure always holds
  an existing object, so the case of no object at that address is only there to make
  the function total.
\<close>

definition exitState ::
  "spanielRecord \<Rightarrow> int \<Rightarrow> nat \<Rightarrow> spanielThresholdState \<Rightarrow> observer \<Rightarrow> spanielThresholdState \<times> observer" where
  "exitState record tm i state w =
     (case handleThresholdExiting
             \<lparr>intersectionRatio = - 1, time = tm, rootBounds = emptyRect,
              boundingClientRect = emptyRect, intersectionRect = emptyRect,
              target = r_target record,
              duration = minusNullable tm (lastVisible state), entering = Some False,
              label = t_label (threshold state), payload = r_payload record\<rparr> state w
      of (state', w') \<Rightarrow>
        (state'\<lparr>lastSatisfied := False, visible := False, lastEntry := None\<rparr>, w'))"

definition handleRecordExiting :: "nat \<Rightarrow> int \<Rightarrow> observer \<Rightarrow> observer" where
  "handleRecordExiting rid tm w =
     (case heap w rid of None \<Rightarrow> w
      | Some record \<Rightarrow>
          (case forEach (exitState record tm) 0 (thresholdStates record) w of
             (states, w') \<Rightarrow> w'\<lparr>heap := (heap w')(rid \<mapsto> record\<lparr>thresholdStates := states\<rparr>)\<rparr>))"

text \<open>
  The callback of the \<open>forEach\<close> in \<open>handleObserverEntry\<close>. The timer's closure keeps the
  state object, here the record object \<open>rid\<close> and the index \<open>i\<close>.
\<close>

definition observeState ::
  "intersectionObserverEntry \<Rightarrow> nat \<Rightarrow> spanielRecord \<Rightarrow> nat \<Rightarrow> spanielThresholdState \<Rightarrow> observer
     \<Rightarrow> spanielThresholdState \<times> observer" where
  "observeState entry rid record i state w =
     (let hasTimeThreshold = hasTime (threshold state);
          spanielEntry = generateSpanielEntry record entry state;
          ratioSatisfied = entrySatisfiesRatio entry (t_ratio (threshold state));
          (state', w') =
            (if ratioSatisfied \<and> \<not> lastSatisfied state then
               (if hasTimeThreshold then
                  (state\<lparr>lastVisible := Some (time entry), timeoutId := Some (nextTimer w)\<rparr>,
                   w\<lparr>timers := (timers w)(nextTimer w \<mapsto>
                        \<lparr>setAt = now w, delay = (case t_time (threshold state) of None \<Rightarrow> 0 | Some d \<Rightarrow> d),
                         trid = rid, tidx = i,
                         tentry = spanielEntry\<lparr>entering := Some True\<rparr>\<rparr>),
                      nextTimer := Suc (nextTimer w)\<rparr>)
                else
                  (state\<lparr>visible := True\<rparr>,
                   w\<lparr>queuedEntries := queuedEntries w @ [spanielEntry\<lparr>entering := Some True\<rparr>]\<rparr>))
             else if \<not> ratioSatisfied then handleThresholdExiting spanielEntry state w
             else (state, w))
      in (state'\<lparr>lastEntry := Some entry, lastSatisfied := ratioSatisfied\<rparr>, w'))"

definition handleObserverEntry :: "intersectionObserverEntry \<Rightarrow> observer \<Rightarrow> outcome" where
  "handleObserverEntry entry w =
     (case recordOf w (target entry) of
        None \<Rightarrow> Inl (TypeError, w)
      | Some (rid, record0) \<Rightarrow>
          (let record = record0\<lparr>lastSeenEntry := Some entry\<rparr>;
               w1 = w\<lparr>heap := (heap w)(rid \<mapsto> record)\<rparr>
           in if \<not> paused w1 then
                (case forEach (observeState entry rid record) 0 (thresholdStates record) w1 of
                   (states, w2) \<Rightarrow>
                     Inr (flushQueuedEntries
                            (w2\<lparr>heap := (heap w2)(rid \<mapsto> record\<lparr>thresholdStates := states\<rparr>)\<rparr>)))
              else Inr w1))"

text \<open>\<open>records.forEach(handleObserverEntry)\<close>: a throw ends the loop.\<close>

fun internalCallback :: "intersectionObserverEntry list \<Rightarrow> observer \<Rightarrow> outcome" where
  "internalCallback [] w = Inr w"
| "internalCallback (entry # records) w =
     (case handleObserverEntry entry w of
        Inl err \<Rightarrow> Inl err
      | Inr w' \<Rightarrow> internalCallback records w')"

text \<open>
  The loop of \<open>setAllHidden\<close> over the keys read before it starts. The loop does not
  change the store, so each key still has its record.
\<close>

fun exitAll :: "token list \<Rightarrow> int \<Rightarrow> observer \<Rightarrow> observer" where
  "exitAll [] tm w = w"
| "exitAll (k # ids) tm w =
     exitAll ids tm (case recordAt w k of None \<Rightarrow> w | Some (rid, r) \<Rightarrow> handleRecordExiting rid tm w)"

text \<open>\<open>this.observer.reset()\<close> only concerns the intersection primitive.\<close>

definition setAllHidden :: "observer \<Rightarrow> observer" where
  "setAllHidden w = flushQueuedEntries (exitAll (map fst (recordStore w)) (now w) w)"

definition onTabHidden :: "observer \<Rightarrow> observer" where
  "onTabHidden w = setAllHidden (w\<lparr>paused := True\<rparr>)"

definition onWindowClosed :: "observer \<Rightarrow> observer" where
  "onWindowClosed w = onTabHidden w"

text \<open>
  The loop of \<open>onTabShown\<close>: the last seen entry of each record, re-stamped, is handled
  again. The assignment \<open>entry.time = time\<close> changes the entry object that the record
  holds; \<open>handleObserverEntry\<close> stores the re-stamped entry into that record.
\<close>

fun showAll :: "token list \<Rightarrow> int \<Rightarrow> observer \<Rightarrow> outcome" where
  "showAll [] tm w = Inr w"
| "showAll (k # ids) tm w =
     (case recordAt w k of
        None \<Rightarrow> Inl (TypeError, w)
      | Some (rid, r) \<Rightarrow>
          (case lastSeenEntry r of
             None \<Rightarrow> showAll ids tm w
           | Some entry \<Rightarrow>
               (case handleObserverEntry (entry\<lparr>time := tm\<rparr>) w of
                  Inl err \<Rightarrow> Inl err
                | Inr w' \<Rightarrow> showAll ids tm w')))"

definition onTabShown :: "observer \<Rightarrow> outcome" where
  "onTabShown w = showAll (map fst (recordStore w)) (now w) (w\<lparr>paused := False\<rparr>)"

definition disconnect :: "observer \<Rightarrow> observer" where
  "disconnect w = (setAllHidden w)\<lparr>recordStore := []\<rparr>"

text \<open>
  \<open>unobserve\<close> deletes the record from the store and hands a closure that holds the
  record object to \<open>scheduleWork\<close>: the object's address is queued in \<open>work\<close>.
  \<open>this.observer.unobserve(element)\<close> only concerns the intersection primitive.
\<close>

definition unobserve :: "elem \<Rightarrow> observer \<Rightarrow> observer" where
  "unobserve element w =
     (case recordOf w element of
        None \<Rightarrow> w
      | Some (rid, record) \<Rightarrow>
          w\<lparr>recordStore := filter (\<lambda>(k, r). Some k \<noteq> spanielId w element) (recordStore w),
            work := work w @ [rid]\<rparr>)"

text \<open>
  Modelled from the spec: \<open>scheduleWork\<close> comes from \<open>./metal/index\<close>, which is not among
  the sources; it "runs a callback on a later turn of the event loop". The closures wait
  in the queue \<open>work\<close> and run one at a time, oldest first, at the event \<open>Work\<close> below.
  This is what the closure of \<open>unobserve\<close> does when it runs; the time is read then.
\<close>

definition scheduledWork :: "nat \<Rightarrow> observer \<Rightarrow> observer" where
  "scheduledWork rid w = flushQueuedEntries (handleRecordExiting rid (now w) w)"

text \<open>
  \<open>this.recordStore[id] = record\<close>: a key the store already has keeps its position, a new
  key goes to the end.
\<close>

fun assign :: "token \<Rightarrow> nat \<Rightarrow> (token \<times> nat) list \<Rightarrow> (token \<times> nat) list" where
  "assign k v [] = [(k, v)]"
| "assign k v ((k', v') # kvs) = (if k = k' then (k, v) # kvs else (k', v') # assign k v kvs)"

text \<open>
  Modelled from the spec: \<open>generateToken\<close> comes from \<open>./metal/index\<close>, which is not among
  the sources; it "produces a unique opaque token on demand", here the next value of the
  counter \<open>nextToken\<close>. \<open>observe\<close> gives the element a token unless it has one, stores a
  new record under it, and returns it. \<open>this.observer.observe(target)\<close> only concerns the
  intersection primitive.
\<close>

definition observe :: "elem \<Rightarrow> payload \<Rightarrow> observer \<Rightarrow> token \<times> observer" where
  "observe el pl w =
     (let (id, w1) = (case spanielId w el of
                        Some k \<Rightarrow> (k, w)
                      | None \<Rightarrow> (nextToken w,
                                 w\<lparr>spanielId := (spanielId w)(el \<mapsto> nextToken w),
                                   nextToken := Suc (nextToken w)\<rparr>));
          record = \<lparr>r_target = el, r_payload = pl,
                    thresholdStates =
                      map (\<lambda>t. \<lparr>lastSatisfied = False, lastEntry = None, threshold = t,
                                lastVisible = None, visible = False, timeoutId = None\<rparr>)
                          (thresholds w1),
                    lastSeenEntry = None\<rparr>
      in (id, w1\<lparr>recordStore := assign id (nextRid w1) (recordStore w1),
                 heap := (heap w1)(nextRid w1 \<mapsto> record),
                 nextRid := Suc (nextRid w1)\<rparr>))"

text \<open>
  The closure passed to \<open>setTimeout\<close> at a rising edge: it marks the state visible and
  hands the entry, with its duration set, to the callback on its own. The closure holds
  its state object, so the cases of no such object are only there to make the function
  total.
\<close>

definition timeoutFired :: "nat \<Rightarrow> observer \<Rightarrow> observer" where
  "timeoutFired tid w =
     (case timers w tid of
        None \<Rightarrow> w
      | Some t \<Rightarrow>
          (case heap w (trid t) of
             None \<Rightarrow> w
           | Some record \<Rightarrow>
               (if tidx t < length (thresholdStates record) then
                  (let state = thresholdStates record ! tidx t;
                       state' = state\<lparr>visible := True\<rparr>;
                       spanielEntry = (tentry t)\<lparr>duration := minusNullable (now w) (lastVisible state')\<rparr>
                   in w\<lparr>heap := (heap w)(trid t \<mapsto>
                                   record\<lparr>thresholdStates := (thresholdStates record)[tidx t := state']\<rparr>),
                        timers := (timers w)(tid := None),
                        calls := calls w @ [ [spanielEntry] ]\<rparr>)
                else w)))"

section \<open>The event loop\<close>

text \<open>
  What can happen to an observer: calls of its public methods, a batch of samples from
  the intersection primitive, the page's signals, a timer that is due, the oldest piece
  of scheduled work, and the passing of time (the clock does not go back). A timer runs
  only while it is pending and not before its delay has passed (a negative delay counts
  as none); the event of a timer that is not pending or not due, and the event \<open>Work\<close>
  with no work scheduled, change nothing. After a throw the observer goes on from where
  the throw left it.
\<close>

datatype event =
    Observe elem payload
  | Unobserve elem
  | Disconnect
  | Samples "intersectionObserverEntry list"
  | Hide
  | Show
  | Unload
  | Timeout nat
  | Work
  | Tick nat

definition due :: "observer \<Rightarrow> nat \<Rightarrow> bool" where
  "due w tid = (case timers w tid of None \<Rightarrow> False | Some t \<Rightarrow> setAt t + max 0 (delay t) \<le> now w)"

fun step :: "observer \<Rightarrow> event \<Rightarrow> outcome" where
  "step w (Observe el pl) = Inr (snd (observe el pl w))"
| "step w (Unobserve el) = Inr (unobserve el w)"
| "step w Disconnect = Inr (disconnect w)"
| "step w (Samples records) = internalCallback records w"
| "step w Hide = Inr (onTabHidden w)"
| "step w Show = onTabShown w"
| "step w Unload = Inr (onWindowClosed w)"
| "step w (Timeout tid) = Inr (if due w tid then timeoutFired tid w else w)"
| "step w Work =
     Inr (case work w of [] \<Rightarrow> w | rid # rest \<Rightarrow> scheduledWork rid (w\<lparr>work := rest\<rparr>))"
| "step w (Tick d) = Inr (w\<lparr>now := now w + int d\<rparr>)"

fun run :: "observer \<Rightarrow> event list \<Rightarrow> observer" where
  "run w [] = w"
| "run w (ev # evs) = run (after (step w ev)) evs"

section \<open>Notions used in the statements\<close>

subsection \<open>Views of the observer\<close>

text \<open>The threshold state object at index \<open>i\<close> of the record object \<open>rid\<close>.\<close>

definition stateAt :: "observer \<Rightarrow> nat \<Rightarrow> nat \<Rightarrow> spanielThresholdState option" where
  "stateAt w rid i =
     (case heap w rid of None \<Rightarrow> None
      | Some r \<Rightarrow> if i < length (thresholdStates r) then Some (thresholdStates r ! i) else None)"

text \<open>The observer in which the record object \<open>rid\<close> has the threshold states \<open>xs\<close>.\<close>

definition withStates :: "nat \<Rightarrow> spanielRecord \<Rightarrow> spanielThresholdState list \<Rightarrow> observer \<Rightarrow> observer" where
  "withStates rid record xs w = w\<lparr>heap := (heap w)(rid \<mapsto> record\<lparr>thresholdStates := xs\<rparr>)\<rparr>"

text \<open>The record that \<open>observe\<close> creates.\<close>

definition freshRecord :: "elem \<Rightarrow> payload \<Rightarrow> spanielThreshold list \<Rightarrow> spanielRecord" where
  "freshRecord el pl ths =
     \<lparr>r_target = el, r_payload = pl,
      thresholdStates =
        map (\<lambda>t. \<lparr>lastSatisfied = False, lastEntry = None, threshold = t,
                  lastVisible = None, visible = False, timeoutId = None\<rparr>) ths,
      lastSeenEntry = None\<rparr>"

subsection \<open>What handling a sample does\<close>

text \<open>The record with the sample as its \<open>lastSeenEntry\<close>.\<close>

definition seen :: "intersectionObserverEntry \<Rightarrow> spanielRecord \<Rightarrow> spanielRecord" where
  "seen entry r = r\<lparr>lastSeenEntry := Some entry\<rparr>"

text \<open>
  The entries that the handling of a sample queues for one threshold state: the entering
  event at a rising edge of a threshold without a time, the exit event when the ratio is
  no longer satisfied and the state was confirmed visible, and nothing otherwise.
\<close>

definition emitted :: "spanielRecord \<Rightarrow> intersectionObserverEntry \<Rightarrow> spanielThresholdState \<Rightarrow> spanielObserverEntry list" where
  "emitted record entry s =
     (if entrySatisfiesRatio entry (t_ratio (threshold s)) then
        (if lastSatisfied s \<or> hasTime (threshold s) then []
         else [(generateSpanielEntry record entry s)\<lparr>entering := Some True\<rparr>])
      else if lastSatisfied s \<and> (hasTime (threshold s) \<longrightarrow> visible s) then
        [(generateSpanielEntry record entry s)
           \<lparr>duration := minusNullable (time entry) (lastVisible s), entering := Some False\<rparr>]
      else [])"

text \<open>
  A threshold state \<open>s'\<close> is what the handling of the sample makes of \<open>s\<close>: the sample is
  its \<open>lastEntry\<close>, \<open>lastSatisfied\<close> tells whether the sample satisfies the ratio, and
  \<open>visible\<close> is set at a rising edge of a threshold without a time and kept or cleared as
  the exit procedure does.
\<close>

definition observed :: "intersectionObserverEntry \<Rightarrow> spanielThresholdState \<Rightarrow> spanielThresholdState \<Rightarrow> bool" where
  "observed entry s s' \<longleftrightarrow>
     lastEntry s' = Some entry \<and> threshold s' = threshold s \<and>
     lastSatisfied s' = entrySatisfiesRatio entry (t_ratio (threshold s)) \<and>
     visible s' = (if entrySatisfiesRatio entry (t_ratio (threshold s))
                   then visible s \<or> (\<not> lastSatisfied s \<and> \<not> hasTime (threshold s))
                   else visible s \<and> \<not> lastSatisfied s)"

text \<open>The loop of \<open>handleObserverEntry\<close> over the states of the record \<open>r0\<close> at \<open>rid\<close>.\<close>

definition sampled :: "intersectionObserverEntry \<Rightarrow> nat \<Rightarrow> spanielRecord \<Rightarrow> observer \<Rightarrow> spanielThresholdState list \<times> observer" where
  "sampled entry rid r0 w =
     forEach (observeState entry rid (seen entry r0)) 0 (thresholdStates r0)
       (w\<lparr>heap := (heap w)(rid \<mapsto> seen entry r0)\<rparr>)"

text \<open>The record of a tracked element after \<open>handleObserverEntry\<close> has handled a sample for it.\<close>

definition handledRecord :: "intersectionObserverEntry \<Rightarrow> nat \<Rightarrow> spanielRecord \<Rightarrow> observer \<Rightarrow> spanielRecord" where
  "handledRecord entry rid r0 w =
     (if paused w then seen entry r0
      else (seen entry r0)\<lparr>thresholdStates := fst (sampled entry rid r0 w)\<rparr>)"

text \<open>The observer after \<open>handleObserverEntry\<close> has handled a sample of a tracked element.\<close>

definition handled :: "intersectionObserverEntry \<Rightarrow> nat \<Rightarrow> spanielRecord \<Rightarrow> observer \<Rightarrow> observer" where
  "handled entry rid r0 w =
     (if paused w then w\<lparr>heap := (heap w)(rid \<mapsto> seen entry r0)\<rparr>
      else flushQueuedEntries
             (withStates rid (seen entry r0) (fst (sampled entry rid r0 w)) (snd (sampled entry rid r0 w))))"


subsection \<open>What a forced exit does\<close>

text \<open>The threshold state after a forced exit.\<close>

definition reset :: "spanielThresholdState \<Rightarrow> spanielThresholdState" where
  "reset s = s\<lparr>lastSatisfied := False, visible := False, lastEntry := None\<rparr>"

text \<open>A record whose threshold states have all been reset by a forced exit.\<close>

definition resetAll :: "spanielRecord \<Rightarrow> spanielRecord" where
  "resetAll r = r\<lparr>thresholdStates := map reset (thresholdStates r)\<rparr>"

text \<open>
  A threshold state is confirmed visible when its ratio was satisfied by the last sample
  and, if its threshold has a time, its dwell timer has run.
\<close>

definition confirmed :: "spanielThresholdState \<Rightarrow> bool" where
  "confirmed s \<longleftrightarrow> lastSatisfied s \<and> (hasTime (threshold s) \<longrightarrow> visible s)"

text \<open>The exit event of a forced exit at time \<open>tm\<close>: ratio -1 and the empty rect as geometry.\<close>

definition forcedExit :: "spanielRecord \<Rightarrow> int \<Rightarrow> spanielThresholdState \<Rightarrow> spanielObserverEntry" where
  "forcedExit r tm s =
     \<lparr>intersectionRatio = - 1, time = tm, rootBounds = emptyRect,
      boundingClientRect = emptyRect, intersectionRect = emptyRect, target = r_target r,
      duration = minusNullable tm (lastVisible s), entering = Some False,
      label = t_label (threshold s), payload = r_payload r\<rparr>"

definition forcedExits :: "spanielRecord \<Rightarrow> int \<Rightarrow> spanielObserverEntry list" where
  "forcedExits r tm = map (forcedExit r tm) (filter confirmed (thresholdStates r))"

text \<open>
  The exit events that hiding the page is expected to deliver: for each record of the
  store, in the order of its keys, and each of its threshold states that is confirmed
  visible, the forced exit at the current time.
\<close>

definition exitsOf :: "(nat \<rightharpoonup> spanielRecord) \<Rightarrow> int \<Rightarrow> (token \<times> nat) list \<Rightarrow> spanielObserverEntry list" where
  "exitsOf h tm kvs =
     concat (map (\<lambda>(k, rid). case h rid of None \<Rightarrow> [] | Some r \<Rightarrow> forcedExits r tm) kvs)"

definition hideExits :: "observer \<Rightarrow> spanielObserverEntry list" where
  "hideExits w = exitsOf (heap w) (now w) (recordStore w)"

subsection \<open>What a timer does when it runs\<close>

text \<open>The observer after the timer \<open>tid\<close>, pending with the closure \<open>t\<close> on a state of \<open>r\<close>, has run.\<close>

definition fired :: "nat \<Rightarrow> timer \<Rightarrow> spanielRecord \<Rightarrow> observer \<Rightarrow> observer" where
  "fired tid t r w =
     w\<lparr>heap := (heap w)(trid t \<mapsto>
          r\<lparr>thresholdStates := (thresholdStates r)[tidx t := (thresholdStates r ! tidx t)\<lparr>visible := True\<rparr>]\<rparr>),
       timers := (timers w)(tid := None),
       calls := calls w @ [ [(tentry t)\<lparr>duration :=
                  minusNullable (now w) (lastVisible (thresholdStates r ! tidx t))\<rparr>] ]\<rparr>"

subsection \<open>The invariant\<close>

text \<open>
  The timer \<open>tid\<close> with the closure \<open>t\<close> is the pending dwell timer of the state \<open>s\<close>: the
  state names it, its ratio is satisfied, it is not yet visible, and the timer's delay
  and entry are those of the rising edge.
\<close>

definition armed :: "nat \<Rightarrow> timer \<Rightarrow> spanielThresholdState \<Rightarrow> bool" where
  "armed tid t s \<longleftrightarrow>
     timeoutId s = Some tid \<and> lastSatisfied s \<and> \<not> visible s \<and> hasTime (threshold s) \<and>
     t_time (threshold s) = Some (delay t) \<and> lastVisible s = Some (time (tentry t)) \<and>
     entering (tentry t) = Some True \<and> label (tentry t) = t_label (threshold s)"

text \<open>Every pending timer has an id already allocated and is the dwell timer of its state.\<close>

definition timersOK :: "observer \<Rightarrow> bool" where
  "timersOK w \<longleftrightarrow>
     (\<forall>tid t. timers w tid = Some t \<longrightarrow>
        tid < nextTimer w \<and> (\<exists>s. stateAt w (trid t) (tidx t) = Some s \<and> armed tid t s))"

text \<open>A visible state has its ratio satisfied.\<close>

definition statesOK :: "observer \<Rightarrow> bool" where
  "statesOK w \<longleftrightarrow> (\<forall>rid i s. stateAt w rid i = Some s \<longrightarrow> visible s \<longrightarrow> lastSatisfied s)"

definition armedOK :: "observer \<Rightarrow> bool" where
  "armedOK w \<longleftrightarrow> timersOK w \<and> statesOK w"

text \<open>
  The record store has each key once and each record object once, its record objects
  exist, and the addresses in use are below the next one to be allocated.
\<close>

definition storeOK :: "observer \<Rightarrow> bool" where
  "storeOK w \<longleftrightarrow>
     distinct (map fst (recordStore w)) \<and> distinct (map snd (recordStore w)) \<and>
     (\<forall>k rid. (k, rid) \<in> set (recordStore w) \<longrightarrow> heap w rid \<noteq> None) \<and>
     (\<forall>rid. heap w rid \<noteq> None \<longrightarrow> rid < nextRid w)"

text \<open>The last seen entry of a stored record is a sample of the element stored under its key.\<close>

definition seenOK :: "observer \<Rightarrow> bool" where
  "seenOK w \<longleftrightarrow>
     (\<forall>k rid r e. recordAt w k = Some (rid, r) \<longrightarrow> lastSeenEntry r = Some e \<longrightarrow>
        spanielId w (target e) = Some k)"

text \<open>What holds also inside the loops, and what holds between events: the queue is empty.\<close>

definition steady :: "observer \<Rightarrow> bool" where
  "steady w \<longleftrightarrow> armedOK w \<and> storeOK w \<and> seenOK w"

definition invariant :: "observer \<Rightarrow> bool" where
  "invariant w \<longleftrightarrow> armedOK w \<and> storeOK w \<and> seenOK w \<and> queuedEntries w = []"

subsection \<open>Relations between an observer and a later one\<close>

text \<open>
  What one step of a loop over threshold states may do, to its state \<open>s\<close> at index \<open>i\<close> of
  the record object \<open>rid\<close> and to the timers: a timer that is pending afterwards was
  pending before and is still the dwell timer of \<open>s\<close> if it was, or it is a new dwell
  timer of \<open>s\<close>.
\<close>

definition affects ::
  "nat \<Rightarrow> nat \<Rightarrow> spanielThresholdState \<Rightarrow> observer \<Rightarrow> spanielThresholdState \<Rightarrow> observer \<Rightarrow> bool" where
  "affects rid i s w s' w' \<longleftrightarrow>
     heap w' = heap w \<and> nextTimer w \<le> nextTimer w' \<and>
     ((visible s \<longrightarrow> lastSatisfied s) \<longrightarrow>
        (visible s' \<longrightarrow> lastSatisfied s') \<and>
        (\<forall>tid t. timers w' tid = Some t \<longrightarrow>
           (timers w tid = Some t \<and> (armed tid t s \<longrightarrow> armed tid t s')) \<or>
           (tid < nextTimer w' \<and> trid t = rid \<and> tidx t = i \<and> armed tid t s')))"

text \<open>Only the queue and the timers differ.\<close>

definition sameBase :: "observer \<Rightarrow> observer \<Rightarrow> bool" where
  "sameBase w w' \<longleftrightarrow>
     heap w' = heap w \<and> recordStore w' = recordStore w \<and> paused w' = paused w \<and>
     thresholds w' = thresholds w \<and> work w' = work w \<and> calls w' = calls w \<and>
     now w' = now w \<and> nextRid w' = nextRid w \<and> nextToken w' = nextToken w \<and>
     spanielId w' = spanielId w"

text \<open>Timer ids are not reused: a timer with an old id that is pending later was pending before.\<close>

definition laterTimers :: "observer \<Rightarrow> observer \<Rightarrow> bool" where
  "laterTimers w w' \<longleftrightarrow>
     nextTimer w \<le> nextTimer w' \<and>
     (\<forall>tid t. timers w' tid = Some t \<longrightarrow> tid < nextTimer w \<longrightarrow> timers w tid = Some t)"

text \<open>The same element, payload and thresholds: the threshold states of a record never change in number or threshold.\<close>

definition shape :: "spanielRecord \<Rightarrow> spanielRecord \<Rightarrow> bool" where
  "shape r r' \<longleftrightarrow>
     r_target r' = r_target r \<and> r_payload r' = r_payload r \<and>
     map threshold (thresholdStates r') = map threshold (thresholdStates r)"

text \<open>The store, the ids and the clock are the same, and every record object has kept its shape.\<close>

definition keeps :: "observer \<Rightarrow> observer \<Rightarrow> bool" where
  "keeps w w' \<longleftrightarrow>
     recordStore w' = recordStore w \<and> spanielId w' = spanielId w \<and> nextRid w' = nextRid w \<and>
     nextToken w' = nextToken w \<and> thresholds w' = thresholds w \<and> work w' = work w \<and>
     now w' = now w \<and> paused w' = paused w \<and>
     (\<forall>x. rel_option shape (heap w x) (heap w' x))"

subsection \<open>Scenarios\<close>

text \<open>A sample for element \<open>el\<close> with the given ratio and time; its geometry plays no role.\<close>

definition sample :: "elem \<Rightarrow> rat \<Rightarrow> int \<Rightarrow> intersectionObserverEntry" where
  "sample el r tm =
     \<lparr>intersectionRatio = r, time = tm, rootBounds = emptyRect,
      boundingClientRect = emptyRect, intersectionRect = emptyRect, target = el\<rparr>"

text \<open>A threshold without a time, and one with a time.\<close>

definition plain :: "string \<Rightarrow> rat \<Rightarrow> spanielThreshold" where
  "plain l r = \<lparr>t_label = l, t_ratio = r, t_time = None\<rparr>"

definition timed :: "string \<Rightarrow> rat \<Rightarrow> int \<Rightarrow> spanielThreshold" where
  "timed l r d = \<lparr>t_label = l, t_ratio = r, t_time = Some d\<rparr>"

text \<open>The spec's threshold \<open>viewable\<close>: half of the element for one second.\<close>

definition viewable :: spanielThreshold where
  "viewable = timed ''viewable'' (1/2) 1000"

text \<open>
  An observer with that threshold after a sample of ratio 0.6 at time 0 for its element:
  the timer 0 is pending, with this closure.
\<close>

definition dwelling :: observer where
  "dwelling = run (newObserver [viewable]) [Observe 7 None, Samples [sample 7 (3/5) 0] ]"

definition viewableTimer :: timer where
  "viewableTimer =
     \<lparr>setAt = 0, delay = 1000, trid = 0, tidx = 0,
      tentry = \<lparr>intersectionRatio = 3/5, time = 0, rootBounds = emptyRect,
                boundingClientRect = emptyRect, intersectionRect = emptyRect, target = 7,
                duration = 0, entering = Some True, label = ''viewable'', payload = None\<rparr>\<rparr>"


text \<open>The sample that ends the dwell early, half a second after the rising edge.\<close>

definition leaving :: "event list" where
  "leaving = [Tick 500, Samples [sample 7 (1/10) 500] ]"

text \<open>
  An observer with a plain and a timed threshold, 200 ms after a sample of ratio 0.6: the
  plain threshold is visible, the timer of the timed one is pending.
\<close>

definition glimpsed :: observer where
  "glimpsed = run (newObserver [plain ''50pct'' (1/2), viewable])
                [Observe 7 None, Samples [sample 7 (3/5) 0], Tick 200]"


text \<open>The observer \<open>dwelling\<close> after \<open>unobserve\<close> of its element: the scheduled work has not run yet.\<close>

definition unobserved :: observer where
  "unobserved = run (newObserver [viewable]) [Observe 7 None, Samples [sample 7 (3/5) 0], Unobserve 7]"

text \<open>The record of the element in \<open>dwelling\<close>, which \<open>unobserved\<close> still has on its heap.\<close>

definition dwellingRecord :: spanielRecord where
  "dwellingRecord =
     \<lparr>r_target = 7, r_payload = None,
      thresholdStates =
        [\<lparr>lastSatisfied = True, lastEntry = Some (sample 7 (3/5) 0), threshold = viewable,
          lastVisible = Some 0, visible = False, timeoutId = Some 0\<rparr>],
      lastSeenEntry = Some (sample 7 (3/5) 0)\<rparr>"

text \<open>An observer with a plain threshold and two elements.\<close>

definition pair :: observer where
  "pair = run (newObserver [plain ''50pct'' (1/2)]) [Observe 7 None, Observe 8 None]"

text \<open>That observer after a sample of ratio 0.6 for the first element.\<close>

definition afterFirst :: observer where
  "afterFirst = handled (sample 7 (3/5) 2000) 0 (freshRecord 7 None [plain ''50pct'' (1/2)]) pair"

section \<open>The loops over the threshold states of a record\<close>

text \<open>
  A loop runs over the threshold states of one record object and changes the queue and
  the timers on its way; its states are put back into the record when it ends.
\<close>

lemma stateAt_withStates [simp]:
  "stateAt (withStates rid record xs w) r i =
     (if r = rid then (if i < length xs then Some (xs ! i) else None) else stateAt w r i)"
  by (simp add: stateAt_def withStates_def)

lemma withStates_fields [simp]:
  "timers (withStates rid record xs w) = timers w"
  "nextTimer (withStates rid record xs w) = nextTimer w"
  "queuedEntries (withStates rid record xs w) = queuedEntries w"
  by (simp_all add: withStates_def)

lemma forEach_inv:
  assumes body: "\<And>ds s ss w s' w'. I (ds @ s # ss) w \<Longrightarrow> f (length ds) s w = (s', w') \<Longrightarrow> I (ds @ s' # ss) w'"
  shows "I (ds @ ss) w \<Longrightarrow> forEach f (length ds) ss w = (ss', w') \<Longrightarrow> I (ds @ ss') w'"
proof (induction ss arbitrary: ds w ss' w')
  case Nil
  then show ?case by simp
next
  case (Cons s ss)
  obtain s1 w1 where f: "f (length ds) s w = (s1, w1)" by (cases "f (length ds) s w")
  obtain ss1 w2 where r: "forEach f (Suc (length ds)) ss w1 = (ss1, w2)"
    by (cases "forEach f (Suc (length ds)) ss w1")
  from Cons.prems(2) f r have eq: "ss' = s1 # ss1" "w' = w2" by auto
  from body [OF Cons.prems(1) f] have "I ((ds @ [s1]) @ ss) w1" by simp
  moreover from r have "forEach f (length (ds @ [s1])) ss w1 = (ss1, w2)" by simp
  ultimately have "I ((ds @ [s1]) @ ss1) w2" by (rule Cons.IH)
  with eq show ?case by simp
qed

subsection \<open>The two callbacks, case by case\<close>

lemma observeState_eq:
  "observeState entry rid record i s w =
     (if entrySatisfiesRatio entry (t_ratio (threshold s)) then
        (if lastSatisfied s then (s\<lparr>lastEntry := Some entry, lastSatisfied := True\<rparr>, w)
         else if hasTime (threshold s) then
           (s\<lparr>lastVisible := Some (time entry), timeoutId := Some (nextTimer w),
              lastEntry := Some entry, lastSatisfied := True\<rparr>,
            w\<lparr>timers := (timers w)(nextTimer w \<mapsto>
                 \<lparr>setAt = now w, delay = (case t_time (threshold s) of None \<Rightarrow> 0 | Some d \<Rightarrow> d), trid = rid, tidx = i,
                  tentry = (generateSpanielEntry record entry s)\<lparr>entering := Some True\<rparr>\<rparr>),
               nextTimer := Suc (nextTimer w)\<rparr>)
         else
           (s\<lparr>visible := True, lastEntry := Some entry, lastSatisfied := True\<rparr>,
            w\<lparr>queuedEntries := queuedEntries w @
                 [(generateSpanielEntry record entry s)\<lparr>entering := Some True\<rparr>]\<rparr>))
      else if lastSatisfied s \<and> (hasTime (threshold s) \<longrightarrow> visible s) then
        (s\<lparr>visible := False, lastEntry := Some entry, lastSatisfied := False\<rparr>,
         clearTimeout (timeoutId s)
           (w\<lparr>queuedEntries := queuedEntries w @
                [(generateSpanielEntry record entry s)
                   \<lparr>duration := minusNullable (time entry) (lastVisible s), entering := Some False\<rparr>]\<rparr>))
      else (s\<lparr>lastEntry := Some entry, lastSatisfied := False\<rparr>, clearTimeout (timeoutId s) w))"
  by (simp add: observeState_def handleThresholdExiting_def Let_def generateSpanielEntry_def)

lemma exitState_eq:
  "exitState record tm i s w =
     (if lastSatisfied s \<and> (hasTime (threshold s) \<longrightarrow> visible s) then
        (s\<lparr>visible := False, lastSatisfied := False, lastEntry := None\<rparr>,
         clearTimeout (timeoutId s)
           (w\<lparr>queuedEntries := queuedEntries w @
                [\<lparr>intersectionRatio = - 1, time = tm, rootBounds = emptyRect,
                  boundingClientRect = emptyRect, intersectionRect = emptyRect,
                  target = r_target record,
                  duration = minusNullable tm (lastVisible s), entering = Some False,
                  label = t_label (threshold s), payload = r_payload record\<rparr>]\<rparr>))
      else (s\<lparr>lastSatisfied := False, visible := False, lastEntry := None\<rparr>,
            clearTimeout (timeoutId s) w))"
  by (auto simp add: exitState_def handleThresholdExiting_def Let_def)

subsection \<open>Timers stay the dwell timers of their states\<close>

lemma observeState_affects:
  "observeState entry rid record i s w = (s', w') \<Longrightarrow> affects rid i s w s' w'"
  unfolding affects_def observeState_eq
  by (auto simp: armed_def clearTimeout_def generateSpanielEntry_def hasTime_def
           split: if_splits option.splits)

lemma exitState_affects:
  "exitState record tm i s w = (s', w') \<Longrightarrow> affects rid i s w s' w'"
  unfolding affects_def exitState_eq
  by (auto simp: armed_def clearTimeout_def split: if_splits option.splits)

lemma affects_preserves:
  assumes ok: "timersOK (withStates rid record xs w)" "statesOK (withStates rid record xs w)"
    and i: "i < length xs"
    and eff: "affects rid i (xs ! i) w s' w'"
  shows "timersOK (withStates rid record (xs[i := s']) w') \<and>
         statesOK (withStates rid record (xs[i := s']) w')"
proof -
  let ?W = "withStates rid record xs w" and ?W' = "withStates rid record (xs[i := s']) w'"
  from i have "stateAt ?W rid i = Some (xs ! i)" by simp
  with ok(2) have si: "visible (xs ! i) \<longrightarrow> lastSatisfied (xs ! i)"
    unfolding statesOK_def by blast
  from eff have hp: "heap w' = heap w" and nt: "nextTimer w \<le> nextTimer w'"
    by (simp_all add: affects_def)
  from eff si have s': "visible s' \<longrightarrow> lastSatisfied s'"
    and tm: "\<And>tid t. timers w' tid = Some t \<Longrightarrow>
        (timers w tid = Some t \<and> (armed tid t (xs ! i) \<longrightarrow> armed tid t s')) \<or>
        (tid < nextTimer w' \<and> trid t = rid \<and> tidx t = i \<and> armed tid t s')"
    by (auto simp: affects_def)
  have st: "stateAt ?W' r j = (if r = rid \<and> j = i then Some s' else stateAt ?W r j)" for r j
    using i hp by (auto simp: stateAt_def withStates_def nth_list_update)
  have sw: "stateAt w' r j = stateAt w r j" for r j
    by (simp add: stateAt_def hp)
  have "statesOK ?W'"
    using ok(2) s' unfolding statesOK_def st by auto
  moreover have "timersOK ?W'"
    unfolding timersOK_def
  proof (intro allI impI)
    fix tid t assume "timers ?W' tid = Some t"
    then have p: "timers w' tid = Some t" by simp
    from tm [OF p] show "tid < nextTimer ?W' \<and> (\<exists>s. stateAt ?W' (trid t) (tidx t) = Some s \<and> armed tid t s)"
    proof
      assume old: "timers w tid = Some t \<and> (armed tid t (xs ! i) \<longrightarrow> armed tid t s')"
      with ok(1) have lt: "tid < nextTimer w"
        and ex: "\<exists>s. stateAt ?W (trid t) (tidx t) = Some s \<and> armed tid t s"
        by (auto simp: timersOK_def)
      from ex obtain s0 where s0: "stateAt ?W (trid t) (tidx t) = Some s0" "armed tid t s0" by blast
      show ?thesis
      proof (cases "trid t = rid \<and> tidx t = i")
        case True
        with s0 i have "s0 = xs ! i" by simp
        with old s0 True lt nt i show ?thesis by (simp add: st)
      next
        case False
        with s0 lt nt i show ?thesis by (auto simp: sw)
      qed
    next
      assume "tid < nextTimer w' \<and> trid t = rid \<and> tidx t = i \<and> armed tid t s'"
      with i show ?thesis by (simp add: st)
    qed
  qed
  ultimately show ?thesis by simp
qed

lemma armedOK_cong:
  "stateAt w' = stateAt w \<Longrightarrow> timers w' = timers w \<Longrightarrow> nextTimer w' = nextTimer w
     \<Longrightarrow> armedOK w' = armedOK w"
  by (simp add: armedOK_def timersOK_def statesOK_def)

lemma withStates_same:
  "heap w rid = Some record \<Longrightarrow> withStates rid record (thresholdStates record) w = w"
  by (simp add: withStates_def fun_upd_idem)

lemma forEach_armedOK:
  assumes body: "\<And>i s w s' w'. f i s w = (s', w') \<Longrightarrow> affects rid i s w s' w'"
    and ok: "armedOK (withStates rid record ss w)"
    and run: "forEach f 0 ss w = (ss', w')"
  shows "armedOK (withStates rid record ss' w')"
proof -
  have "armedOK (withStates rid record ([] @ ss') w')"
  proof (rule forEach_inv [where I = "\<lambda>xs w. armedOK (withStates rid record xs w)" and f = f])
    fix ds s ss w s' w'
    assume a: "armedOK (withStates rid record (ds @ s # ss) w)" and b: "f (length ds) s w = (s', w')"
    from body [OF b] have "affects rid (length ds) ((ds @ s # ss) ! length ds) w s' w'" by simp
    with a affects_preserves [of rid "record" "ds @ s # ss" w "length ds" s' w']
    show "armedOK (withStates rid record (ds @ s' # ss) w')"
      by (simp add: armedOK_def)
  next
    from ok show "armedOK (withStates rid record ([] @ ss) w)" by simp
  next
    from run show "forEach f (length []) ss w = (ss', w')" by simp
  qed
  then show ?thesis by simp
qed

lemma handleRecordExiting_armedOK:
  assumes "armedOK w"
  shows "armedOK (handleRecordExiting rid tm w)"
proof (cases "heap w rid")
  case None
  with assms show ?thesis by (simp add: handleRecordExiting_def)
next
  case (Some r)
  obtain ss' w' where run: "forEach (exitState r tm) 0 (thresholdStates r) w = (ss', w')"
    by (cases "forEach (exitState r tm) 0 (thresholdStates r) w")
  from assms Some have "armedOK (withStates rid r (thresholdStates r) w)"
    by (simp add: withStates_same)
  from forEach_armedOK [OF exitState_affects this run]
  have "armedOK (withStates rid r ss' w')" .
  with Some run show ?thesis by (simp add: handleRecordExiting_def withStates_def)
qed

lemma flushQueuedEntries_armedOK [simp]: "armedOK (flushQueuedEntries w) = armedOK w"
  by (rule armedOK_cong) (simp_all add: flushQueuedEntries_def stateAt_def fun_eq_iff)

subsection \<open>What a loop leaves alone\<close>

lemma laterTimers_refl [simp]: "laterTimers w w"
  by (simp add: laterTimers_def)

lemma laterTimers_trans: "laterTimers a b \<Longrightarrow> laterTimers b c \<Longrightarrow> laterTimers a c"
  unfolding laterTimers_def by (meson le_trans less_le_trans)

lemma sameBase_refl [simp]: "sameBase w w"
  by (simp add: sameBase_def)

lemma sameBase_trans: "sameBase a b \<Longrightarrow> sameBase b c \<Longrightarrow> sameBase a c"
  by (simp add: sameBase_def)

lemma forEach_Cons_snd:
  "snd (forEach f i (s # ss) w) = snd (forEach f (Suc i) ss (snd (f i s w)))"
  by (simp add: case_prod_beta)

lemma forEach_Cons_fst:
  "fst (forEach f i (s # ss) w) = fst (f i s w) # fst (forEach f (Suc i) ss (snd (f i s w)))"
  by (simp add: case_prod_beta)

lemma forEach_pres:
  assumes refl: "\<And>w. R w w" and trans: "\<And>a b c. R a b \<Longrightarrow> R b c \<Longrightarrow> R a c"
    and body: "\<And>i s w. R w (snd (f i s w))"
  shows "R w (snd (forEach f i ss w))"
proof (induction ss arbitrary: i w)
  case Nil
  show ?case by (simp add: refl)
next
  case (Cons s ss)
  have "R w (snd (f i s w))" by (rule body)
  moreover have "R (snd (f i s w)) (snd (forEach f (Suc i) ss (snd (f i s w))))" by (rule Cons.IH)
  ultimately have "R w (snd (forEach f (Suc i) ss (snd (f i s w))))" by (rule trans)
  then show ?case by (simp only: forEach_Cons_snd)
qed

lemma forEach_queue:
  assumes body: "\<And>i s w. queuedEntries (snd (f i s w)) = queuedEntries w @ em s"
  shows "queuedEntries (snd (forEach f i ss w)) = queuedEntries w @ concat (map em ss)"
proof (induction ss arbitrary: i w)
  case Nil
  show ?case by simp
next
  case (Cons s ss)
  have "queuedEntries (snd (forEach f (Suc i) ss (snd (f i s w))))
          = queuedEntries (snd (f i s w)) @ concat (map em ss)" by (rule Cons.IH)
  then show ?case by (simp add: body forEach_Cons_snd del: forEach.simps)
qed

lemma forEach_all2:
  assumes body: "\<And>i s w. P s (fst (f i s w))"
  shows "list_all2 P ss (fst (forEach f i ss w))"
proof (induction ss arbitrary: i w)
  case Nil
  show ?case by simp
next
  case (Cons s ss)
  have "list_all2 P ss (fst (forEach f (Suc i) ss (snd (f i s w))))" by (rule Cons.IH)
  moreover have "P s (fst (f i s w))" by (rule body)
  ultimately show ?case by (simp add: forEach_Cons_fst del: forEach.simps)
qed

lemma clearTimeout_sameBase [simp]: "sameBase w (clearTimeout tid w)"
  by (simp add: clearTimeout_def sameBase_def split: option.splits)

lemma clearTimeout_laterTimers [simp]: "laterTimers w (clearTimeout tid w)"
  by (simp add: clearTimeout_def laterTimers_def split: option.splits)

lemma clearTimeout_queue [simp]: "queuedEntries (clearTimeout tid w) = queuedEntries w"
  by (simp add: clearTimeout_def split: option.splits)

lemma observeState_sameBase: "sameBase w (snd (observeState entry rid r i s w))"
  by (simp add: observeState_eq sameBase_def clearTimeout_def split: option.splits)

lemma observeState_laterTimers: "laterTimers w (snd (observeState entry rid r i s w))"
  by (simp add: observeState_eq laterTimers_def clearTimeout_def split: option.splits)

lemma exitState_sameBase: "sameBase w (snd (exitState r tm i s w))"
  by (simp add: exitState_eq sameBase_def clearTimeout_def split: option.splits)

lemma exitState_laterTimers: "laterTimers w (snd (exitState r tm i s w))"
  by (simp add: exitState_eq laterTimers_def clearTimeout_def split: option.splits)

section \<open>What the operations do to the observer\<close>

subsection \<open>The loop of \<open>handleObserverEntry\<close>\<close>

lemma observeState_queue:
  "queuedEntries (snd (observeState entry rid r i s w)) = queuedEntries w @ emitted r entry s"
  by (simp add: observeState_eq emitted_def)

lemma observeState_observed: "observed entry s (fst (observeState entry rid r i s w))"
  by (auto simp add: observeState_eq observed_def)

lemma forEach_sameBase:
  assumes "\<And>i s w. sameBase w (snd (f i s w))"
  shows "sameBase w (snd (forEach f i ss w))"
  by (rule forEach_pres [where R = sameBase]) (auto intro: assms sameBase_trans)

lemma forEach_laterTimers:
  assumes "\<And>i s w. laterTimers w (snd (f i s w))"
  shows "laterTimers w (snd (forEach f i ss w))"
  by (rule forEach_pres [where R = laterTimers]) (auto intro: assms laterTimers_trans)

lemma handleObserverEntry_paused:
  assumes "paused w" "recordOf w (target entry) = Some (rid, r0)"
  shows "handleObserverEntry entry w = Inr (w\<lparr>heap := (heap w)(rid \<mapsto> r0\<lparr>lastSeenEntry := Some entry\<rparr>)\<rparr>)"
  using assms by (simp add: handleObserverEntry_def)

lemma handleObserverEntry_throws:
  assumes "recordOf w (target entry) = None"
  shows "handleObserverEntry entry w = Inl (TypeError, w)"
  using assms by (simp add: handleObserverEntry_def)

lemma handleObserverEntry_active:
  assumes "\<not> paused w" "recordOf w (target entry) = Some (rid, r0)"
  shows "handleObserverEntry entry w =
     Inr (flushQueuedEntries
            (withStates rid (seen entry r0) (fst (sampled entry rid r0 w)) (snd (sampled entry rid r0 w))))"
  using assms
  by (simp add: handleObserverEntry_def sampled_def seen_def withStates_def case_prod_beta Let_def)

lemma sampled_sameBase: "sameBase (w\<lparr>heap := (heap w)(rid \<mapsto> seen entry r0)\<rparr>) (snd (sampled entry rid r0 w))"
  unfolding sampled_def by (rule forEach_sameBase) (rule observeState_sameBase)

lemma sampled_laterTimers: "laterTimers w (snd (sampled entry rid r0 w))"
proof -
  have "laterTimers (w\<lparr>heap := (heap w)(rid \<mapsto> seen entry r0)\<rparr>) (snd (sampled entry rid r0 w))"
    unfolding sampled_def by (rule forEach_laterTimers) (rule observeState_laterTimers)
  then show ?thesis by (simp add: laterTimers_def)
qed

lemma sampled_queue:
  "queuedEntries (snd (sampled entry rid r0 w)) =
     queuedEntries w @ concat (map (emitted (seen entry r0) entry) (thresholdStates r0))"
  unfolding sampled_def by (simp add: forEach_queue [where em = "emitted (seen entry r0) entry"] observeState_queue)

lemma sampled_observed: "list_all2 (observed entry) (thresholdStates r0) (fst (sampled entry rid r0 w))"
  unfolding sampled_def by (rule forEach_all2) (rule observeState_observed)

lemma recordOf_heap: "recordOf w el = Some (rid, r) \<Longrightarrow> heap w rid = Some r"
  by (auto simp: recordOf_def recordAt_def split: option.splits)

lemma sampled_armedOK:
  assumes "armedOK w" "heap w rid = Some r0"
  shows "armedOK (withStates rid (seen entry r0) (fst (sampled entry rid r0 w)) (snd (sampled entry rid r0 w)))"
proof -
  let ?w1 = "w\<lparr>heap := (heap w)(rid \<mapsto> seen entry r0)\<rparr>"
  have "stateAt ?w1 = stateAt w"
    using assms(2) by (auto simp: stateAt_def seen_def fun_eq_iff)
  then have "armedOK ?w1 = armedOK w" by (rule armedOK_cong) simp_all
  moreover have "withStates rid (seen entry r0) (thresholdStates r0) ?w1 = ?w1"
    by (simp add: withStates_def seen_def)
  ultimately have a: "armedOK (withStates rid (seen entry r0) (thresholdStates r0) ?w1)"
    using assms(1) by simp
  have b: "forEach (observeState entry rid (seen entry r0)) 0 (thresholdStates r0) ?w1
      = (fst (sampled entry rid r0 w), snd (sampled entry rid r0 w))"
    by (simp add: sampled_def)
  show ?thesis
    by (rule forEach_armedOK [OF observeState_affects a b])
qed

subsection \<open>The record store under changes of the heap\<close>

lemma storeOK_frame:
  assumes "storeOK w" "recordStore w' = recordStore w" "nextRid w' = nextRid w"
    "\<And>rid. (heap w' rid = None) = (heap w rid = None)"
  shows "storeOK w'"
  using assms unfolding storeOK_def by simp

lemma seenOK_frame:
  assumes "seenOK w" "recordStore w' = recordStore w" "spanielId w' = spanielId w"
    "\<And>rid. map_option lastSeenEntry (heap w' rid) = map_option lastSeenEntry (heap w rid)"
  shows "seenOK w'"
  unfolding seenOK_def
proof (intro allI impI)
  fix k rid r e
  assume a: "recordAt w' k = Some (rid, r)" and b: "lastSeenEntry r = Some e"
  from a assms(2) have m: "map_of (recordStore w) k = Some rid" and h: "heap w' rid = Some r"
    by (auto simp: recordAt_def split: option.splits)
  from assms(4) [of rid] h obtain r0 where r0: "heap w rid = Some r0" "lastSeenEntry r0 = lastSeenEntry r"
    by (cases "heap w rid") auto
  with m have "recordAt w k = Some (rid, r0)" by (simp add: recordAt_def)
  with assms(1) r0 b have "spanielId w (target e) = Some k" unfolding seenOK_def by metis
  with assms(3) show "spanielId w' (target e) = Some k" by simp
qed

subsection \<open>The loop of \<open>handleRecordExiting\<close>\<close>

lemma exitState_fst: "fst (exitState r tm i s w) = reset s"
  by (simp add: exitState_eq reset_def)

lemma exitState_queue:
  "queuedEntries (snd (exitState r tm i s w)) = queuedEntries w @ (if confirmed s then [forcedExit r tm s] else [])"
  by (simp add: exitState_eq confirmed_def forcedExit_def)

lemma forEach_map:
  assumes "\<And>i s w. fst (f i s w) = g s"
  shows "fst (forEach f i ss w) = map g ss"
  by (induction ss arbitrary: i w) (simp_all add: assms case_prod_beta)

lemma concat_map_if:
  "concat (map (\<lambda>s. if P s then [f s] else []) xs) = map f (filter P xs)"
  by (induction xs) simp_all

lemma handleRecordExiting_eq:
  assumes "heap w rid = Some r"
  shows "handleRecordExiting rid tm w =
     withStates rid r (map reset (thresholdStates r)) (snd (forEach (exitState r tm) 0 (thresholdStates r) w))"
proof -
  let ?L = "forEach (exitState r tm) 0 (thresholdStates r) w"
  have "sameBase w (snd ?L)" by (rule forEach_sameBase) (rule exitState_sameBase)
  then have "heap (snd ?L) = heap w" by (simp add: sameBase_def)
  moreover have "fst ?L = map reset (thresholdStates r)"
    by (rule forEach_map) (rule exitState_fst)
  ultimately show ?thesis
    using assms by (simp add: handleRecordExiting_def withStates_def case_prod_beta)
qed

lemma exiting_facts:
  fixes r tm w
  defines "w' \<equiv> snd (forEach (exitState r tm) 0 (thresholdStates r) w)"
  shows "sameBase w w'" "laterTimers w w'"
    "queuedEntries w' = queuedEntries w @ forcedExits r tm"
proof -
  show "sameBase w w'" unfolding w'_def by (rule forEach_sameBase) (rule exitState_sameBase)
  show "laterTimers w w'" unfolding w'_def by (rule forEach_laterTimers) (rule exitState_laterTimers)
  have "queuedEntries w' = queuedEntries w @ concat (map (\<lambda>s. if confirmed s then [forcedExit r tm s] else []) (thresholdStates r))"
    unfolding w'_def by (rule forEach_queue) (rule exitState_queue)
  then show "queuedEntries w' = queuedEntries w @ forcedExits r tm"
    by (simp add: concat_map_if forcedExits_def)
qed

subsection \<open>Records keep their shape\<close>

lemma shape_refl [simp]: "shape r r"
  by (simp add: shape_def)

lemma shape_trans: "shape a b \<Longrightarrow> shape b c \<Longrightarrow> shape a c"
  by (simp add: shape_def)

lemma keeps_refl [simp]: "keeps w w"
  by (simp add: keeps_def option.rel_refl)

lemma keeps_trans:
  assumes "keeps a b" "keeps b c"
  shows "keeps a c"
proof -
  have "rel_option shape (heap a x) (heap c x)" for x
  proof -
    from assms have "rel_option shape (heap a x) (heap b x)" "rel_option shape (heap b x) (heap c x)"
      by (simp_all add: keeps_def)
    then show ?thesis
      by (cases "heap a x"; cases "heap b x"; cases "heap c x") (auto intro: shape_trans)
  qed
  with assms show ?thesis by (simp add: keeps_def)
qed

lemma keeps_heap_None: "keeps w w' \<Longrightarrow> (heap w' x = None) = (heap w x = None)"
  unfolding keeps_def by (metis option.rel_distinct(1,2) option.exhaust)

lemma storeOK_keeps:
  assumes "storeOK w" "keeps w w'"
  shows "storeOK w'"
proof (rule storeOK_frame [OF assms(1)])
  from assms(2) show "recordStore w' = recordStore w" "nextRid w' = nextRid w"
    by (simp_all add: keeps_def)
  from assms(2) show "(heap w' rid = None) = (heap w rid = None)" for rid
    by (rule keeps_heap_None)
qed

lemma observed_threshold:
  "list_all2 (observed entry) ss ss' \<Longrightarrow> map threshold ss' = map threshold ss"
  by (induction ss ss' rule: list_all2_induct) (simp_all add: observed_def)

lemma flushQueuedEntries_keeps [simp]: "keeps w (flushQueuedEntries w)"
  by (simp add: keeps_def flushQueuedEntries_def option.rel_refl)

lemma flushQueuedEntries_laterTimers [simp]: "laterTimers w (flushQueuedEntries w)"
  by (simp add: laterTimers_def flushQueuedEntries_def)

lemma flushQueuedEntries_queue [simp]: "queuedEntries (flushQueuedEntries w) = []"
  by (simp add: flushQueuedEntries_def)

lemma flushQueuedEntries_heap [simp]: "heap (flushQueuedEntries w) = heap w"
  by (simp add: flushQueuedEntries_def)

lemma flushQueuedEntries_timers [simp]: "timers (flushQueuedEntries w) = timers w"
  by (simp add: flushQueuedEntries_def)

lemma flushQueuedEntries_calls:
  "calls (flushQueuedEntries w) = calls w @ (if queuedEntries w = [] then [] else [queuedEntries w])"
  by (simp add: flushQueuedEntries_def)

subsection \<open>\<open>handleObserverEntry\<close> keeps the invariant\<close>

lemma handleObserverEntry_handled:
  "recordOf w (target entry) = Some (rid, r0) \<Longrightarrow> handleObserverEntry entry w = Inr (handled entry rid r0 w)"
  by (cases "paused w") (simp_all add: handled_def handleObserverEntry_paused handleObserverEntry_active seen_def)

lemma handled_heap:
  "heap (handled entry rid r0 w) =
     (heap w)(rid \<mapsto> (if paused w then seen entry r0
                          else (seen entry r0)\<lparr>thresholdStates := fst (sampled entry rid r0 w)\<rparr>))"
  using sampled_sameBase [of w rid entry r0]
  by (simp add: handled_def withStates_def sameBase_def)

lemma handled_keeps:
  assumes "heap w rid = Some r0"
  shows "keeps w (handled entry rid r0 w)"
proof (cases "paused w")
  case True
  with assms show ?thesis
    by (auto simp: handled_def keeps_def seen_def shape_def option.rel_refl)
next
  case False
  have "shape r0 ((seen entry r0)\<lparr>thresholdStates := fst (sampled entry rid r0 w)\<rparr>)"
    using observed_threshold [OF sampled_observed [of entry r0 rid w] ] by (simp add: shape_def seen_def)
  with assms sampled_sameBase [of w rid entry r0]
  have "keeps w (withStates rid (seen entry r0) (fst (sampled entry rid r0 w)) (snd (sampled entry rid r0 w)))"
    by (auto simp: keeps_def sameBase_def withStates_def option.rel_refl)
  then have "keeps w (flushQueuedEntries (withStates rid (seen entry r0) (fst (sampled entry rid r0 w)) (snd (sampled entry rid r0 w))))"
    by (rule keeps_trans) simp
  with False show ?thesis by (simp add: handled_def)
qed

lemma handled_laterTimers: "laterTimers w (handled entry rid r0 w)"
  using sampled_laterTimers [of w entry rid r0]
  by (simp add: handled_def laterTimers_def withStates_def flushQueuedEntries_def)

lemma handled_armedOK:
  assumes "armedOK w" "heap w rid = Some r0"
  shows "armedOK (handled entry rid r0 w)"
proof (cases "paused w")
  case True
  have "stateAt (w\<lparr>heap := (heap w)(rid \<mapsto> seen entry r0)\<rparr>) = stateAt w"
    using assms(2) by (auto simp: stateAt_def seen_def fun_eq_iff)
  then have "armedOK (w\<lparr>heap := (heap w)(rid \<mapsto> seen entry r0)\<rparr>) = armedOK w"
    by (rule armedOK_cong) simp_all
  with True assms(1) show ?thesis by (simp add: handled_def)
next
  case False
  with sampled_armedOK [OF assms] show ?thesis by (simp add: handled_def)
qed

lemma handled_queue: "queuedEntries w = [] \<Longrightarrow> queuedEntries (handled entry rid r0 w) = []"
  by (simp add: handled_def)

lemma map_of_distinct_snd:
  assumes "distinct (map snd kvs)" "map_of kvs k = Some v" "map_of kvs k' = Some v"
  shows "k = k'"
proof -
  from assms(2,3) have m: "(k, v) \<in> set kvs" "(k', v) \<in> set kvs" by (auto dest: map_of_SomeD)
  from assms(1) have "inj_on snd (set kvs)" by (simp add: distinct_map)
  from inj_onD [OF this _ m] have "(k, v) = (k', v)" by simp
  then show ?thesis by simp
qed

lemma handled_seenOK:
  assumes "seenOK w" "storeOK w" "recordOf w (target entry) = Some (rid, r0)"
  shows "seenOK (handled entry rid r0 w)"
  unfolding seenOK_def
proof (intro allI impI)
  let ?w' = "handled entry rid r0 w"
  fix k rid' r e
  assume a: "recordAt ?w' k = Some (rid', r)" and b: "lastSeenEntry r = Some e"
  from assms(3) have h0: "heap w rid = Some r0" by (rule recordOf_heap)
  from handled_keeps [OF h0] have st: "recordStore ?w' = recordStore w" and sp: "spanielId ?w' = spanielId w"
    by (simp_all add: keeps_def)
  from a st have m: "map_of (recordStore w) k = Some rid'" and h: "heap ?w' rid' = Some r"
    by (auto simp: recordAt_def split: option.splits)
  show "spanielId ?w' (target e) = Some k"
  proof (cases "rid' = rid")
    case True
    with h have "lastSeenEntry r = Some entry"
      by (auto simp: handled_heap seen_def split: if_splits)
    with b have e: "e = entry" by simp
    from assms(3) obtain k0 where k0: "spanielId w (target entry) = Some k0" "map_of (recordStore w) k0 = Some rid"
      by (auto simp: recordOf_def recordAt_def split: option.splits)
    from assms(2) have "distinct (map snd (recordStore w))" by (simp add: storeOK_def)
    from map_of_distinct_snd [OF this k0(2)] m True have "k0 = k" by simp
    with k0 e sp show ?thesis by simp
  next
    case False
    with h have "heap w rid' = Some r" by (simp add: handled_heap)
    with m have "recordAt w k = Some (rid', r)" by (simp add: recordAt_def)
    with assms(1) b have "spanielId w (target e) = Some k" unfolding seenOK_def by blast
    with sp show ?thesis by simp
  qed
qed

lemma handleObserverEntry_invariant:
  assumes "invariant w"
  shows "invariant (after (handleObserverEntry entry w))"
proof (cases "recordOf w (target entry)")
  case None
  with assms show ?thesis by (simp add: handleObserverEntry_throws)
next
  case (Some p)
  obtain rid r0 where p: "p = (rid, r0)" by (cases p)
  with Some have r: "recordOf w (target entry) = Some (rid, r0)" by simp
  then have h: "heap w rid = Some r0" by (rule recordOf_heap)
  from assms have a: "armedOK w" and s: "storeOK w" and se: "seenOK w" and q: "queuedEntries w = []"
    by (simp_all add: invariant_def)
  have "armedOK (handled entry rid r0 w)" by (rule handled_armedOK [OF a h])
  moreover have "storeOK (handled entry rid r0 w)" by (rule storeOK_keeps [OF s handled_keeps [OF h] ])
  moreover have "seenOK (handled entry rid r0 w)" by (rule handled_seenOK [OF se s r])
  moreover have "queuedEntries (handled entry rid r0 w) = []" by (rule handled_queue [OF q])
  ultimately have "invariant (handled entry rid r0 w)" by (simp add: invariant_def)
  with r show ?thesis by (simp add: handleObserverEntry_handled)
qed

subsection \<open>Forced exits, hiding and showing keep the invariant\<close>

lemma recordAt_cong:
  "recordStore w' = recordStore w \<Longrightarrow> heap w' = heap w \<Longrightarrow> recordAt w' = recordAt w"
  by (simp add: recordAt_def fun_eq_iff cong: option.case_cong)

lemma seenOK_cong:
  "recordAt w' = recordAt w \<Longrightarrow> spanielId w' = spanielId w \<Longrightarrow> seenOK w' = seenOK w"
  by (simp add: seenOK_def)

lemma storeOK_cong:
  "recordStore w' = recordStore w \<Longrightarrow> heap w' = heap w \<Longrightarrow> nextRid w' = nextRid w
     \<Longrightarrow> storeOK w' = storeOK w"
  by (simp add: storeOK_def)

lemma steady_cong:
  assumes "recordStore w' = recordStore w" "heap w' = heap w" "nextRid w' = nextRid w"
    "spanielId w' = spanielId w" "timers w' = timers w" "nextTimer w' = nextTimer w"
  shows "steady w' = steady w"
proof -
  from assms(2) have "stateAt w' = stateAt w" by (simp add: stateAt_def fun_eq_iff)
  then have "armedOK w' = armedOK w" using assms(5,6) by (rule armedOK_cong)
  moreover have "storeOK w' = storeOK w" using assms(1,2,3) by (rule storeOK_cong)
  moreover have "seenOK w' = seenOK w" using recordAt_cong [OF assms(1,2)] assms(4) by (rule seenOK_cong)
  ultimately show ?thesis by (simp add: steady_def)
qed

lemma withStates_keeps:
  assumes "heap w rid = Some r" "map threshold xs = map threshold (thresholdStates r)" "sameBase w w'"
  shows "keeps w (withStates rid r xs w')"
  using assms by (auto simp: keeps_def sameBase_def withStates_def shape_def option.rel_refl)

lemma handleRecordExiting_keeps: "keeps w (handleRecordExiting rid tm w)"
proof (cases "heap w rid")
  case None
  then show ?thesis by (simp add: handleRecordExiting_def)
next
  case (Some r)
  have "map threshold (map reset (thresholdStates r)) = map threshold (thresholdStates r)"
    by (simp add: reset_def)
  with Some show ?thesis
    by (simp add: handleRecordExiting_eq withStates_keeps exiting_facts(1))
qed

lemma handleRecordExiting_laterTimers: "laterTimers w (handleRecordExiting rid tm w)"
proof (cases "heap w rid")
  case None
  then show ?thesis by (simp add: handleRecordExiting_def)
next
  case (Some r)
  with exiting_facts(2) [where r = r and tm = tm and w = w] show ?thesis
    by (simp add: handleRecordExiting_eq laterTimers_def)
qed

lemma handleRecordExiting_seen:
  "map_option lastSeenEntry (heap (handleRecordExiting rid tm w) x) = map_option lastSeenEntry (heap w x)"
proof (cases "heap w rid")
  case None
  then show ?thesis by (simp add: handleRecordExiting_def)
next
  case (Some r)
  with exiting_facts(1) [where r = r and tm = tm and w = w] show ?thesis
    by (simp add: handleRecordExiting_eq withStates_def sameBase_def)
qed

lemma seenOK_keeps:
  assumes "seenOK w" "keeps w w'"
    "\<And>x. map_option lastSeenEntry (heap w' x) = map_option lastSeenEntry (heap w x)"
  shows "seenOK w'"
  using assms(1) _ _ assms(3)
  by (rule seenOK_frame) (use assms(2) in \<open>simp_all add: keeps_def\<close>)

lemma handleRecordExiting_heap:
  "heap (handleRecordExiting rid tm w) =
     (case heap w rid of None \<Rightarrow> heap w
      | Some r \<Rightarrow> (heap w)(rid \<mapsto> r\<lparr>thresholdStates := map reset (thresholdStates r)\<rparr>))"
proof (cases "heap w rid")
  case None
  then show ?thesis by (simp add: handleRecordExiting_def)
next
  case (Some r)
  with exiting_facts(1) [where r = r and tm = tm and w = w] show ?thesis
    by (simp add: handleRecordExiting_eq withStates_def sameBase_def)
qed

lemma handleRecordExiting_queue:
  "queuedEntries (handleRecordExiting rid tm w) =
     queuedEntries w @ (case heap w rid of None \<Rightarrow> [] | Some r \<Rightarrow> forcedExits r tm)"
proof (cases "heap w rid")
  case None
  then show ?thesis by (simp add: handleRecordExiting_def)
next
  case (Some r)
  with exiting_facts(3) [where r = r and tm = tm and w = w] show ?thesis
    by (simp add: handleRecordExiting_eq)
qed

lemma handleRecordExiting_calls [simp]: "calls (handleRecordExiting rid tm w) = calls w"
proof (cases "heap w rid")
  case None
  then show ?thesis by (simp add: handleRecordExiting_def)
next
  case (Some r)
  with exiting_facts(1) [where r = r and tm = tm and w = w] show ?thesis
    by (simp add: handleRecordExiting_eq withStates_def sameBase_def)
qed

lemma handleRecordExiting_steady:
  assumes "steady w"
  shows "steady (handleRecordExiting rid tm w)"
  using assms handleRecordExiting_armedOK [of w rid tm]
    storeOK_keeps [OF _ handleRecordExiting_keeps, of w rid tm]
    seenOK_keeps [OF _ handleRecordExiting_keeps handleRecordExiting_seen, of w rid tm]
  by (simp add: steady_def)

lemma exitAll_steady: "steady w \<Longrightarrow> steady (exitAll ids tm w)"
  by (induction ids arbitrary: w) (auto simp: handleRecordExiting_steady split: option.splits)

lemma exitAll_keeps: "keeps w (exitAll ids tm w)"
proof (induction ids arbitrary: w)
  case Nil
  show ?case by simp
next
  case (Cons k ids)
  show ?case
  proof (cases "recordAt w k")
    case None
    with Cons.IH [of w] show ?thesis by simp
  next
    case (Some p)
    then show ?thesis
      using keeps_trans [OF handleRecordExiting_keeps Cons.IH, of w "fst p" tm]
      by (cases p) simp
  qed
qed

lemma exitAll_laterTimers: "laterTimers w (exitAll ids tm w)"
proof (induction ids arbitrary: w)
  case Nil
  show ?case by simp
next
  case (Cons k ids)
  show ?case
  proof (cases "recordAt w k")
    case None
    with Cons.IH [of w] show ?thesis by simp
  next
    case (Some p)
    then show ?thesis
      using laterTimers_trans [OF handleRecordExiting_laterTimers Cons.IH, of w "fst p" tm]
      by (cases p) simp
  qed
qed

lemma invariant_steady: "invariant w \<longleftrightarrow> steady w \<and> queuedEntries w = []"
  by (auto simp: invariant_def steady_def)

lemma flushQueuedEntries_steady [simp]: "steady (flushQueuedEntries w) = steady w"
  by (rule steady_cong) (simp_all add: flushQueuedEntries_def)

lemma steady_paused [simp]: "steady (w\<lparr>paused := b\<rparr>) = steady w"
  by (rule steady_cong) simp_all

lemma setAllHidden_invariant: "steady w \<Longrightarrow> invariant (setAllHidden w)"
  by (simp add: invariant_steady setAllHidden_def exitAll_steady)

lemma onTabHidden_invariant:
  assumes "invariant w"
  shows "invariant (onTabHidden w)"
proof -
  from assms have "steady (w\<lparr>paused := True\<rparr>)" by (simp add: invariant_steady)
  then show ?thesis unfolding onTabHidden_def by (rule setAllHidden_invariant)
qed

lemma setAllHidden_laterTimers: "laterTimers w (setAllHidden w)"
  unfolding setAllHidden_def
  by (rule laterTimers_trans [OF exitAll_laterTimers flushQueuedEntries_laterTimers])

lemma onTabHidden_laterTimers: "laterTimers w (onTabHidden w)"
  using setAllHidden_laterTimers [of "w\<lparr>paused := True\<rparr>"]
  by (simp add: onTabHidden_def laterTimers_def)

lemma internalCallback_invariant: "invariant w \<Longrightarrow> invariant (after (internalCallback records w))"
proof (induction records arbitrary: w)
  case Nil
  then show ?case by simp
next
  case (Cons entry records)
  from handleObserverEntry_invariant [OF Cons.prems, of entry] show ?case
    by (cases "handleObserverEntry entry w") (auto simp: Cons.IH)
qed

lemma handleObserverEntry_laterTimers: "laterTimers w (after (handleObserverEntry entry w))"
proof (cases "recordOf w (target entry)")
  case None
  then show ?thesis by (simp add: handleObserverEntry_throws)
next
  case (Some p)
  then show ?thesis
    by (cases p) (simp add: handleObserverEntry_handled handled_laterTimers)
qed

lemma internalCallback_laterTimers: "laterTimers w (after (internalCallback records w))"
proof (induction records arbitrary: w)
  case Nil
  show ?case by simp
next
  case (Cons entry records)
  show ?case
  proof (cases "handleObserverEntry entry w")
    case (Inl err)
    with handleObserverEntry_laterTimers [of w entry] show ?thesis by simp
  next
    case (Inr w')
    with handleObserverEntry_laterTimers [of w entry] Cons.IH [of w'] show ?thesis
      by (auto intro: laterTimers_trans)
  qed
qed

lemma showAll_invariant: "invariant w \<Longrightarrow> invariant (after (showAll ids tm w))"
proof (induction ids arbitrary: w)
  case Nil
  then show ?case by simp
next
  case (Cons k ids)
  show ?case
  proof (cases "recordAt w k")
    case None
    with Cons.prems show ?thesis by simp
  next
    case (Some p)
    obtain rid r where p: "p = (rid, r)" by (cases p)
    show ?thesis
    proof (cases "lastSeenEntry r")
      case None
      with Some p Cons show ?thesis by simp
    next
      case (Some entry)
      from handleObserverEntry_invariant [OF Cons.prems, of "entry\<lparr>time := tm\<rparr>"]
      show ?thesis using \<open>recordAt w k = Some p\<close> p Some
        by (cases "handleObserverEntry (entry\<lparr>time := tm\<rparr>) w") (auto simp: Cons.IH)
    qed
  qed
qed

lemma showAll_laterTimers: "laterTimers w (after (showAll ids tm w))"
proof (induction ids arbitrary: w)
  case Nil
  show ?case by simp
next
  case (Cons k ids)
  show ?case
  proof (cases "recordAt w k")
    case None
    then show ?thesis by simp
  next
    case (Some p)
    obtain rid r where p: "p = (rid, r)" by (cases p)
    show ?thesis
    proof (cases "lastSeenEntry r")
      case None
      with Some p Cons.IH [of w] show ?thesis by simp
    next
      case (Some entry)
      show ?thesis
      proof (cases "handleObserverEntry (entry\<lparr>time := tm\<rparr>) w")
        case (Inl err)
        with handleObserverEntry_laterTimers [of w "entry\<lparr>time := tm\<rparr>"] Some p \<open>recordAt w k = Some p\<close>
        show ?thesis by simp
      next
        case (Inr w')
        with handleObserverEntry_laterTimers [of w "entry\<lparr>time := tm\<rparr>"] Cons.IH [of w'] Some p \<open>recordAt w k = Some p\<close>
        show ?thesis by (auto intro: laterTimers_trans)
      qed
    qed
  qed
qed

lemma invariant_paused [simp]: "invariant (w\<lparr>paused := b\<rparr>) = invariant w"
  by (simp add: invariant_steady)

lemma onTabShown_invariant: "invariant w \<Longrightarrow> invariant (after (onTabShown w))"
  by (simp add: onTabShown_def showAll_invariant)

lemma onTabShown_laterTimers: "laterTimers w (after (onTabShown w))"
  using showAll_laterTimers [of "w\<lparr>paused := False\<rparr>"]
  by (simp add: onTabShown_def laterTimers_def)

subsection \<open>\<open>observe\<close> keeps the invariant\<close>

lemma observe_eq:
  "observe el pl w =
     (case spanielId w el of
        Some k \<Rightarrow>
          (k, w\<lparr>recordStore := assign k (nextRid w) (recordStore w),
                heap := (heap w)(nextRid w \<mapsto> freshRecord el pl (thresholds w)),
                nextRid := Suc (nextRid w)\<rparr>)
      | None \<Rightarrow>
          (nextToken w,
           w\<lparr>spanielId := (spanielId w)(el \<mapsto> nextToken w), nextToken := Suc (nextToken w),
             recordStore := assign (nextToken w) (nextRid w) (recordStore w),
             heap := (heap w)(nextRid w \<mapsto> freshRecord el pl (thresholds w)),
             nextRid := Suc (nextRid w)\<rparr>))"
  by (simp add: observe_def freshRecord_def split: option.splits)

lemma map_of_assign: "map_of (assign k v kvs) = (map_of kvs)(k \<mapsto> v)"
  by (induction k v kvs rule: assign.induct) (auto simp: fun_eq_iff)

lemma set_assign: "set (assign k v kvs) \<subseteq> insert (k, v) (set kvs)"
  by (induction k v kvs rule: assign.induct) auto

lemma fst_assign: "set (map fst (assign k v kvs)) = insert k (set (map fst kvs))"
  by (induction k v kvs rule: assign.induct) auto

lemma distinct_fst_assign: "distinct (map fst kvs) \<Longrightarrow> distinct (map fst (assign k v kvs))"
proof (induction kvs)
  case Nil
  show ?case by simp
next
  case (Cons p kvs)
  obtain k' v' where p: "p = (k', v')" by (cases p)
  show ?case
  proof (cases "k = k'")
    case True
    with Cons.prems p show ?thesis by simp
  next
    case False
    from Cons.prems p have "k' \<notin> set (map fst kvs)" and d: "distinct (map fst kvs)" by simp_all
    with False fst_assign [of k v kvs] have "k' \<notin> set (map fst (assign k v kvs))" by auto
    with False p Cons.IH [OF d] show ?thesis by simp
  qed
qed

lemma snd_assign: "set (map snd (assign k v kvs)) \<subseteq> insert v (set (map snd kvs))"
  by (induction k v kvs rule: assign.induct) auto

lemma distinct_snd_assign:
  "distinct (map snd kvs) \<Longrightarrow> v \<notin> set (map snd kvs) \<Longrightarrow> distinct (map snd (assign k v kvs))"
proof (induction kvs)
  case Nil
  show ?case by simp
next
  case (Cons p kvs)
  obtain k' v' where p: "p = (k', v')" by (cases p)
  show ?case
  proof (cases "k = k'")
    case True
    with Cons.prems p show ?thesis by simp
  next
    case False
    from Cons.prems p have n: "v' \<notin> set (map snd kvs)" "v' \<noteq> v"
      and d: "distinct (map snd kvs)" "v \<notin> set (map snd kvs)" by auto
    from n snd_assign [of k v kvs] have "v' \<notin> set (map snd (assign k v kvs))" by auto
    with False p Cons.IH [OF d] show ?thesis by simp
  qed
qed

text \<open>What \<open>observe\<close> changes, whichever branch assigns the id.\<close>

lemma observe_fields:
  fixes el pl w
  defines "w' \<equiv> snd (observe el pl w)" and "k \<equiv> fst (observe el pl w)"
  shows "recordStore w' = assign k (nextRid w) (recordStore w)"
    "heap w' = (heap w)(nextRid w \<mapsto> freshRecord el pl (thresholds w))"
    "nextRid w' = Suc (nextRid w)"
    "timers w' = timers w" "nextTimer w' = nextTimer w" "queuedEntries w' = queuedEntries w"
    "calls w' = calls w" "spanielId w' el = Some k"
    "\<And>x. spanielId w x \<noteq> None \<Longrightarrow> spanielId w' x = spanielId w x"
  unfolding w'_def k_def by (auto simp: observe_eq split: option.splits)

lemma stateAt_freshRecord:
  "heap w rid = Some (freshRecord el pl ths) \<Longrightarrow> stateAt w rid i = Some s \<Longrightarrow> \<not> visible s"
  by (auto simp: stateAt_def freshRecord_def split: if_splits)

lemma stateAt_heap: "stateAt w rid i = Some s \<Longrightarrow> heap w rid \<noteq> None"
  by (auto simp: stateAt_def split: option.splits)

lemma observe_steady:
  assumes "steady w"
  shows "steady (snd (observe el pl w))"
proof -
  let ?w' = "snd (observe el pl w)" and ?k = "fst (observe el pl w)"
  note f = observe_fields [where el = el and pl = pl and w = w]
  from assms have a: "timersOK w" "statesOK w" and s: "storeOK w" and se: "seenOK w"
    by (simp_all add: steady_def armedOK_def)
  from s have bound: "\<And>rid. heap w rid \<noteq> None \<Longrightarrow> rid < nextRid w" by (simp add: storeOK_def)
  then have free: "heap w (nextRid w) = None" by blast
  have st: "stateAt ?w' rid i = stateAt w rid i" if "rid \<noteq> nextRid w" for rid i
    using that by (simp add: stateAt_def f(2))
  have "timersOK ?w'"
    unfolding timersOK_def
  proof (intro allI impI)
    fix tid t assume "timers ?w' tid = Some t"
    then have "timers w tid = Some t" by (simp add: f)
    with a(1) have lt: "tid < nextTimer w" and "\<exists>s. stateAt w (trid t) (tidx t) = Some s \<and> armed tid t s"
      by (auto simp: timersOK_def)
    then obtain s0 where s0: "stateAt w (trid t) (tidx t) = Some s0" "armed tid t s0" by blast
    from s0(1) have "heap w (trid t) \<noteq> None" by (rule stateAt_heap)
    with free have "trid t \<noteq> nextRid w" by auto
    with s0 lt show "tid < nextTimer ?w' \<and> (\<exists>s. stateAt ?w' (trid t) (tidx t) = Some s \<and> armed tid t s)"
      by (simp add: st f)
  qed
  moreover have "statesOK ?w'"
    unfolding statesOK_def
  proof (intro allI impI)
    fix rid i s assume x: "stateAt ?w' rid i = Some s" and v: "visible s"
    show "lastSatisfied s"
    proof (cases "rid = nextRid w")
      case True
      then have "heap ?w' rid = Some (freshRecord el pl (thresholds w))" by (simp add: f)
      from stateAt_freshRecord [OF this x] v show ?thesis by simp
    next
      case False
      with x have "stateAt w rid i = Some s" by (simp add: st)
      with a(2) v show ?thesis unfolding statesOK_def by blast
    qed
  qed
  moreover have "storeOK ?w'"
    unfolding storeOK_def
  proof (intro conjI allI impI)
    from s show "distinct (map fst (recordStore ?w'))"
      by (simp add: f storeOK_def distinct_fst_assign)
    from s have "\<And>k rid. (k, rid) \<in> set (recordStore w) \<Longrightarrow> rid < nextRid w"
      by (auto simp: storeOK_def)
    then have "nextRid w \<notin> set (map snd (recordStore w))" by fastforce
    with s show "distinct (map snd (recordStore ?w'))"
      by (simp add: f storeOK_def distinct_snd_assign)
  next
    fix k rid assume "(k, rid) \<in> set (recordStore ?w')"
    with set_assign [of ?k "nextRid w" "recordStore w"]
    have "(k, rid) = (?k, nextRid w) \<or> (k, rid) \<in> set (recordStore w)" by (auto simp: f)
    with s show "heap ?w' rid \<noteq> None" by (auto simp: f storeOK_def)
  next
    fix rid assume "heap ?w' rid \<noteq> None"
    with bound [of rid] show "rid < nextRid ?w'" by (auto simp: f split: if_splits)
  qed
  moreover have "seenOK ?w'"
    unfolding seenOK_def
  proof (intro allI impI)
    fix k rid r e assume x: "recordAt ?w' k = Some (rid, r)" and l: "lastSeenEntry r = Some e"
    from x have m: "map_of (recordStore ?w') k = Some rid" and h: "heap ?w' rid = Some r"
      by (auto simp: recordAt_def split: option.splits)
    have ne: "rid \<noteq> nextRid w"
    proof
      assume "rid = nextRid w"
      with h have "r = freshRecord el pl (thresholds w)" by (simp add: f)
      with l show False by (simp add: freshRecord_def)
    qed
    with m have "map_of (recordStore w) k = Some rid"
      by (auto simp: f map_of_assign split: if_splits)
    moreover from ne h have "heap w rid = Some r" by (simp add: f)
    ultimately have "recordAt w k = Some (rid, r)" by (simp add: recordAt_def)
    with se l have "spanielId w (target e) = Some k" unfolding seenOK_def by blast
    then show "spanielId ?w' (target e) = Some k" by (simp add: f(9))
  qed
  ultimately show ?thesis by (simp add: steady_def armedOK_def)
qed

lemma observe_laterTimers: "laterTimers w (snd (observe el pl w))"
  by (simp add: laterTimers_def observe_fields)

section \<open>The invariant of the event loop\<close>

subsection \<open>\<open>unobserve\<close>, \<open>disconnect\<close> and the scheduled work\<close>

lemma map_of_filter_key:
  "map_of (filter (\<lambda>(k, v). P k) kvs) k' = (if P k' then map_of kvs k' else None)"
  by (induction kvs) auto

lemma unobserve_steady:
  assumes "steady w"
  shows "steady (unobserve el w)"
proof (cases "recordOf w el")
  case None
  with assms show ?thesis by (simp add: unobserve_def)
next
  case (Some p)
  obtain rid r where p: "p = (rid, r)" by (cases p)
  let ?w' = "w\<lparr>recordStore := filter (\<lambda>(k, r). Some k \<noteq> spanielId w el) (recordStore w),
               work := work w @ [rid]\<rparr>"
  from Some p have u: "unobserve el w = ?w'" by (simp add: unobserve_def)
  from assms have a: "armedOK w" and s: "storeOK w" and se: "seenOK w" by (simp_all add: steady_def)
  have "stateAt ?w' = stateAt w" by (simp add: stateAt_def fun_eq_iff)
  then have "armedOK ?w' = armedOK w" by (rule armedOK_cong) simp_all
  moreover from s have "storeOK ?w'"
    by (auto simp: storeOK_def distinct_map_filter)
  moreover have "seenOK ?w'"
    unfolding seenOK_def
  proof (intro allI impI)
    fix k rid' r' e assume x: "recordAt ?w' k = Some (rid', r')" and l: "lastSeenEntry r' = Some e"
    from x have "recordAt w k = Some (rid', r')"
      by (auto simp: recordAt_def map_of_filter_key split: option.splits if_splits)
    with se l show "spanielId ?w' (target e) = Some k" unfolding seenOK_def by auto
  qed
  ultimately show ?thesis using a u by (simp add: steady_def)
qed

lemma unobserve_queue [simp]: "queuedEntries (unobserve el w) = queuedEntries w"
  by (simp add: unobserve_def split: option.splits)

lemma unobserve_laterTimers: "laterTimers w (unobserve el w)"
  by (simp add: unobserve_def laterTimers_def split: option.splits)

lemma disconnect_invariant:
  assumes "invariant w"
  shows "invariant (disconnect w)"
proof -
  from assms have "steady w" by (simp add: invariant_steady)
  then have "invariant (setAllHidden w)" by (rule setAllHidden_invariant)
  then have a: "armedOK (setAllHidden w)" and s: "storeOK (setAllHidden w)"
    and q: "queuedEntries (setAllHidden w) = []"
    by (simp_all add: invariant_def)
  let ?w' = "(setAllHidden w)\<lparr>recordStore := []\<rparr>"
  have "stateAt ?w' = stateAt (setAllHidden w)" by (simp add: stateAt_def fun_eq_iff)
  then have "armedOK ?w' = armedOK (setAllHidden w)" by (rule armedOK_cong) simp_all
  moreover from s have "storeOK ?w'" by (simp add: storeOK_def)
  moreover have "seenOK ?w'" by (simp add: seenOK_def recordAt_def)
  ultimately show ?thesis using a q by (simp add: invariant_def disconnect_def)
qed

lemma disconnect_laterTimers: "laterTimers w (disconnect w)"
  using setAllHidden_laterTimers [of w] by (simp add: disconnect_def laterTimers_def)

lemma scheduledWork_invariant: "steady w \<Longrightarrow> invariant (scheduledWork rid w)"
  by (simp add: scheduledWork_def invariant_steady handleRecordExiting_steady)

lemma scheduledWork_laterTimers: "laterTimers w (scheduledWork rid w)"
  unfolding scheduledWork_def
  by (rule laterTimers_trans [OF handleRecordExiting_laterTimers flushQueuedEntries_laterTimers])

lemma steady_work [simp]: "steady (w\<lparr>work := x\<rparr>) = steady w"
  by (rule steady_cong) simp_all

lemma steady_now [simp]: "steady (w\<lparr>now := x\<rparr>) = steady w"
  by (rule steady_cong) simp_all

subsection \<open>A timer that runs\<close>

lemma timeoutFired_fired:
  assumes "timers w tid = Some t" "heap w (trid t) = Some r" "tidx t < length (thresholdStates r)"
  shows "timeoutFired tid w = fired tid t r w"
  using assms by (simp add: timeoutFired_def fired_def Let_def)

lemma timersOK_pending:
  assumes "timersOK w" "timers w tid = Some t"
  obtains r where "heap w (trid t) = Some r" "tidx t < length (thresholdStates r)"
    "armed tid t (thresholdStates r ! tidx t)" "tid < nextTimer w"
proof -
  from assms obtain s where s: "stateAt w (trid t) (tidx t) = Some s" "armed tid t s" "tid < nextTimer w"
    by (auto simp: timersOK_def)
  from s(1) obtain r where "heap w (trid t) = Some r" "tidx t < length (thresholdStates r)"
    "s = thresholdStates r ! tidx t"
    by (auto simp: stateAt_def split: option.splits if_splits)
  with s that show thesis by blast
qed

lemma fired_steady:
  assumes "steady w" "timers w tid = Some t" "heap w (trid t) = Some r"
    "tidx t < length (thresholdStates r)" "armed tid t (thresholdStates r ! tidx t)"
  shows "steady (fired tid t r w)"
proof -
  let ?s = "thresholdStates r ! tidx t"
  let ?w2 = "w\<lparr>timers := (timers w)(tid := None),
               calls := calls w @ [ [(tentry t)\<lparr>duration := minusNullable (now w) (lastVisible ?s)\<rparr>] ]\<rparr>"
  have f: "fired tid t r w = withStates (trid t) r ((thresholdStates r)[tidx t := ?s\<lparr>visible := True\<rparr>]) ?w2"
    by (simp add: fired_def withStates_def)
  from assms(1) have a: "armedOK w" and s: "storeOK w" and se: "seenOK w" by (simp_all add: steady_def)
  from assms(5) have "affects (trid t) (tidx t) ?s w (?s\<lparr>visible := True\<rparr>) ?w2"
    by (auto simp: affects_def armed_def)
  moreover from a assms(3) have "timersOK (withStates (trid t) r (thresholdStates r) w)"
    "statesOK (withStates (trid t) r (thresholdStates r) w)"
    by (simp_all add: withStates_same armedOK_def)
  ultimately have "armedOK (fired tid t r w)"
    using affects_preserves [of "trid t" r "thresholdStates r" w "tidx t" "?s\<lparr>visible := True\<rparr>" ?w2] assms(4)
    by (simp add: f armedOK_def)
  moreover have "map threshold ((thresholdStates r)[tidx t := ?s\<lparr>visible := True\<rparr>])
      = map threshold (thresholdStates r)"
  proof (rule nth_equalityI)
    show "length (map threshold ((thresholdStates r)[tidx t := ?s\<lparr>visible := True\<rparr>]))
        = length (map threshold (thresholdStates r))" by simp
    fix i assume "i < length (map threshold ((thresholdStates r)[tidx t := ?s\<lparr>visible := True\<rparr>]))"
    then show "map threshold ((thresholdStates r)[tidx t := ?s\<lparr>visible := True\<rparr>]) ! i
        = map threshold (thresholdStates r) ! i"
      by (cases "i = tidx t") simp_all
  qed
  with assms(3) have k: "keeps w (fired tid t r w)"
    by (auto simp: keeps_def fired_def shape_def option.rel_refl)
  from s k have "storeOK (fired tid t r w)" by (rule storeOK_keeps)
  moreover from se k have "seenOK (fired tid t r w)"
    by (rule seenOK_keeps) (use assms(3) in \<open>simp add: fired_def\<close>)
  ultimately show ?thesis by (simp add: steady_def)
qed

lemma timeoutFired_invariant:
  assumes "invariant w"
  shows "invariant (timeoutFired tid w)"
proof (cases "timers w tid")
  case None
  with assms show ?thesis by (simp add: timeoutFired_def)
next
  case (Some t)
  from assms have st: "steady w" and q: "queuedEntries w = []" by (simp_all add: invariant_steady)
  then have "timersOK w" by (simp add: steady_def armedOK_def)
  from this Some obtain r where r: "heap w (trid t) = Some r" "tidx t < length (thresholdStates r)"
    "armed tid t (thresholdStates r ! tidx t)"
    by (rule timersOK_pending)
  from fired_steady [OF st Some r] q show ?thesis
    by (simp add: timeoutFired_fired [OF Some r(1,2)] invariant_steady fired_def)
qed

lemma timeoutFired_laterTimers: "laterTimers w (timeoutFired tid w)"
  by (simp add: timeoutFired_def laterTimers_def Let_def split: option.splits)

subsection \<open>Every event keeps the invariant\<close>

lemma step_invariant:
  assumes "invariant w"
  shows "invariant (after (step w ev))"
proof (cases ev)
  case (Observe el pl)
  with assms observe_steady [of w el pl] show ?thesis
    by (simp add: invariant_steady observe_fields)
next
  case (Unobserve el)
  with assms unobserve_steady [of w el] show ?thesis by (simp add: invariant_steady)
next
  case Disconnect
  with assms show ?thesis by (simp add: disconnect_invariant)
next
  case (Samples records)
  with assms show ?thesis by (simp add: internalCallback_invariant)
next
  case Hide
  with assms show ?thesis by (simp add: onTabHidden_invariant)
next
  case Show
  with assms show ?thesis by (simp add: onTabShown_invariant)
next
  case Unload
  with assms show ?thesis by (simp add: onWindowClosed_def onTabHidden_invariant)
next
  case (Timeout tid)
  with assms show ?thesis by (simp add: timeoutFired_invariant)
next
  case Work
  show ?thesis
  proof (cases "work w")
    case Nil
    with Work assms show ?thesis by simp
  next
    case (Cons rid rest)
    from assms have "steady (w\<lparr>work := rest\<rparr>)" by (simp add: invariant_steady)
    then have "invariant (scheduledWork rid (w\<lparr>work := rest\<rparr>))" by (rule scheduledWork_invariant)
    with Work Cons show ?thesis by simp
  qed
next
  case (Tick d)
  with assms show ?thesis by (simp add: invariant_steady)
qed

lemma step_laterTimers: "laterTimers w (after (step w ev))"
proof (cases ev)
  case (Observe el pl)
  then show ?thesis by (simp add: observe_laterTimers)
next
  case (Unobserve el)
  then show ?thesis by (simp add: unobserve_laterTimers)
next
  case Disconnect
  then show ?thesis by (simp add: disconnect_laterTimers)
next
  case (Samples records)
  then show ?thesis by (simp add: internalCallback_laterTimers)
next
  case Hide
  then show ?thesis by (simp add: onTabHidden_laterTimers)
next
  case Show
  then show ?thesis by (simp add: onTabShown_laterTimers)
next
  case Unload
  then show ?thesis by (simp add: onWindowClosed_def onTabHidden_laterTimers)
next
  case (Timeout tid)
  then show ?thesis by (simp add: timeoutFired_laterTimers)
next
  case Work
  show ?thesis
  proof (cases "work w")
    case Nil
    with Work show ?thesis by simp
  next
    case (Cons rid rest)
    with Work scheduledWork_laterTimers [of "w\<lparr>work := rest\<rparr>" rid] show ?thesis
      by (simp add: laterTimers_def)
  qed
next
  case (Tick d)
  then show ?thesis by (simp add: laterTimers_def)
qed

lemma run_invariant: "invariant w \<Longrightarrow> invariant (run w evs)"
  by (induction evs arbitrary: w) (simp_all add: step_invariant)

lemma run_laterTimers: "laterTimers w (run w evs)"
proof (induction evs arbitrary: w)
  case Nil
  show ?case by simp
next
  case (Cons ev evs)
  from step_laterTimers [of w ev] Cons.IH [of "after (step w ev)"] show ?case
    by (auto intro: laterTimers_trans)
qed

lemma newObserver_invariant: "invariant (newObserver ths)"
  by (simp add: invariant_def armedOK_def timersOK_def statesOK_def storeOK_def seenOK_def
      newObserver_def stateAt_def recordAt_def)

lemma reachable_invariant: "invariant (run (newObserver ths) evs)"
  by (rule run_invariant) (rule newObserver_invariant)

subsection \<open>Reachable observers\<close>

lemma run_append: "run w (evs1 @ evs2) = run (run w evs1) evs2"
  by (induction evs1 arbitrary: w) simp_all

lemma reachable_pending:
  assumes "timers (run (newObserver ths) evs) tid = Some t"
  obtains r where "heap (run (newObserver ths) evs) (trid t) = Some r"
    "tidx t < length (thresholdStates r)" "armed tid t (thresholdStates r ! tidx t)"
    "tid < nextTimer (run (newObserver ths) evs)"
proof -
  have "timersOK (run (newObserver ths) evs)"
    using reachable_invariant [of ths evs] by (simp add: invariant_def armedOK_def)
  from this assms show thesis by (rule timersOK_pending) (rule that)
qed

lemma storeOK_recordAt:
  assumes "storeOK w" "(k, rid) \<in> set (recordStore w)"
  obtains r where "heap w rid = Some r" "recordAt w k = Some (rid, r)"
proof -
  from assms have "map_of (recordStore w) k = Some rid" "heap w rid \<noteq> None"
    by (auto simp: storeOK_def)
  then show thesis by (auto simp: recordAt_def intro: that)
qed

lemma dwelling_timer: "timers dwelling 0 = Some viewableTimer"
  by code_simp

lemma timersOK_same_state:
  assumes "timersOK w" "timers w tid1 = Some t1" "timers w tid2 = Some t2"
    "trid t1 = trid t2" "tidx t1 = tidx t2"
  shows "tid1 = tid2"
proof -
  from assms(1,2) obtain s1 where s1: "stateAt w (trid t1) (tidx t1) = Some s1" "armed tid1 t1 s1"
    by (auto simp: timersOK_def)
  from assms(1,3) obtain s2 where s2: "stateAt w (trid t2) (tidx t2) = Some s2" "armed tid2 t2 s2"
    by (auto simp: timersOK_def)
  from s1 s2 assms(4,5) show ?thesis by (simp add: armed_def)
qed

subsection \<open>Forced exits of the records in the store\<close>

lemma exitsOf_cong:
  assumes "\<And>k rid. (k, rid) \<in> set kvs \<Longrightarrow> h' rid = h rid"
  shows "exitsOf h' tm kvs = exitsOf h tm kvs"
  unfolding exitsOf_def
  by (rule arg_cong [where f = concat], rule map_cong) (auto simp: assms)

lemma exitAll_result:
  assumes "storeOK w" "set kvs \<subseteq> set (recordStore w)" "distinct (map snd kvs)"
  shows "queuedEntries (exitAll (map fst kvs) tm w) = queuedEntries w @ exitsOf (heap w) tm kvs \<and>
         calls (exitAll (map fst kvs) tm w) = calls w \<and>
         (\<forall>x. heap (exitAll (map fst kvs) tm w) x =
               (if x \<in> snd ` set kvs then map_option resetAll (heap w x) else heap w x))"
  using assms
proof (induction kvs arbitrary: w)
  case Nil
  show ?case by (simp add: exitsOf_def)
next
  case (Cons p kvs)
  obtain k rid where p: "p = (k, rid)" by (cases p)
  with Cons.prems(2) have "(k, rid) \<in> set (recordStore w)" by simp
  with Cons.prems(1) obtain r where r: "heap w rid = Some r" "recordAt w k = Some (rid, r)"
    by (rule storeOK_recordAt)
  let ?w1 = "handleRecordExiting rid tm w"
  have k1: "keeps w ?w1" by (rule handleRecordExiting_keeps)
  with Cons.prems(1) have s1: "storeOK ?w1" by (rule storeOK_keeps)
  from k1 Cons.prems(2) have sub: "set kvs \<subseteq> set (recordStore ?w1)" by (simp add: keeps_def)
  from Cons.prems(3) p have d: "distinct (map snd kvs)" and nin: "rid \<notin> snd ` set kvs" by simp_all
  have h1: "heap ?w1 = (heap w)(rid \<mapsto> resetAll r)"
    using r(1) by (simp add: handleRecordExiting_heap resetAll_def)
  have q1: "queuedEntries ?w1 = queuedEntries w @ forcedExits r tm"
    using r(1) by (simp add: handleRecordExiting_queue)
  from nin have "exitsOf (heap ?w1) tm kvs = exitsOf (heap w) tm kvs"
    by (intro exitsOf_cong) (force simp: h1)
  with Cons.IH [OF s1 sub d] q1 r p
  have "queuedEntries (exitAll (map fst (p # kvs)) tm w)
      = queuedEntries w @ exitsOf (heap w) tm (p # kvs)"
    and "calls (exitAll (map fst (p # kvs)) tm w) = calls w"
    by (simp_all add: exitsOf_def)
  moreover have "heap (exitAll (map fst (p # kvs)) tm w) x =
               (if x \<in> snd ` set (p # kvs) then map_option resetAll (heap w x) else heap w x)" for x
    using Cons.IH [OF s1 sub d] r p nin by (auto simp: h1)
  ultimately show ?case by blast
qed

lemma setAllHidden_result:
  assumes "storeOK w" "queuedEntries w = []"
  shows "calls (setAllHidden w) = calls w @ (if hideExits w = [] then [] else [hideExits w])"
    "\<And>x. heap (setAllHidden w) x =
          (if x \<in> snd ` set (recordStore w) then map_option resetAll (heap w x) else heap w x)"
proof -
  from assms(1) have "distinct (map snd (recordStore w))" by (simp add: storeOK_def)
  from exitAll_result [OF assms(1) subset_refl this, of "now w"] assms(2)
  show "calls (setAllHidden w) = calls w @ (if hideExits w = [] then [] else [hideExits w])"
    "\<And>x. heap (setAllHidden w) x =
          (if x \<in> snd ` set (recordStore w) then map_option resetAll (heap w x) else heap w x)"
    by (simp_all add: setAllHidden_def flushQueuedEntries_calls hideExits_def)
qed

section \<open>Exit durations of thresholds without a time\<close>

text \<open>
  Claim C1. An exit event's duration is the exit sample's time minus \<open>lastVisible\<close>, the
  time at which the ratio began to be satisfied; for the threshold \<open>50pct\<close> (ratio 0.5, no
  time) and samples 0.2, 0.6 at \<open>t2\<close>, 0.3 at \<open>t3\<close> the exit's duration is \<open>t3 - t2\<close>.
  The code sets \<open>lastVisible\<close> only for thresholds with a time, so here it is still
  \<open>null\<close> at the exit, and the duration is \<open>t3 - null = t3\<close>: with \<open>t2 = 2000\<close> and
  \<open>t3 = 3000\<close> the two callback batches are the entering event with duration 0 and the
  exit event with duration 3000, not 1000.
\<close>

theorem exit_duration_plain_threshold:
  "map (map (\<lambda>e. (label e, entering e, time e, duration e)))
     (calls (run (newObserver [plain ''50pct'' (1/2)])
        [Observe 7 None, Samples [sample 7 (1/5) 1000], Samples [sample 7 (3/5) 2000],
         Samples [sample 7 (3/10) 3000] ]))
   = [ [(''50pct'', Some True, 2000, 0)], [(''50pct'', Some False, 3000, 3000)] ]"
  by code_simp

section \<open>The order of the stored thresholds\<close>

lemma insertLeft_positive:
  "\<forall>p \<in> set acc. 0 < comparefn p element \<Longrightarrow> insertLeft comparefn element acc = acc @ [element]"
  by (induction acc) simp_all

lemma foldl_insertLeft_positive:
  "\<forall>t \<in> set acc \<union> set ths. 0 < t_ratio t \<Longrightarrow>
     foldl (\<lambda>acc element. insertLeft ratioComparator element acc) acc ths = acc @ ths"
proof (induction ths arbitrary: acc)
  case Nil
  show ?case by simp
next
  case (Cons t ths)
  from Cons.prems have "insertLeft ratioComparator t acc = acc @ [t]"
    by (intro insertLeft_positive) (simp add: ratioComparator_def)
  moreover from Cons.prems have "\<forall>u \<in> set (acc @ [t]) \<union> set ths. 0 < t_ratio u" by auto
  ultimately show ?case using Cons.IH [of "acc @ [t]"] by simp
qed

lemma thresholds_positive_reversed:
  "\<forall>t \<in> set ths. 0 < t_ratio t \<Longrightarrow> thresholds (newObserver ths) = rev ths"
  using foldl_insertLeft_positive [of "[]" ths] by (simp add: newObserver_def arraySort_def)

text \<open>
  Claim C2. The constructor stores the thresholds sorted by ascending ratio. The
  comparator it passes to \<open>sort\<close> takes one argument and returns that threshold's ratio,
  so it reports "greater" for every pair whose first ratio is positive, and thresholds
  with positive ratios end up in the reverse of the order given: the thresholds with
  ratios 0.2, 0.5, 0.3 are stored as 0.3, 0.5, 0.2, which is not ascending.
\<close>

theorem constructor_thresholds_not_ascending:
  "map t_ratio (thresholds (newObserver [plain ''a'' (1/5), plain ''b'' (1/2), plain ''c'' (3/10)]))
     = [3/10, 1/2, 1/5]
   \<and> \<not> sorted (map t_ratio
          (thresholds (newObserver [plain ''a'' (1/5), plain ''b'' (1/2), plain ''c'' (3/10)])))"
  by code_simp

section \<open>The dwell timer and its entering event\<close>





section \<open>Leaving before the dwell time has passed\<close>

lemma observeState_unsatisfied_pending:
  assumes "hasTime (threshold s)" "lastSatisfied s" "\<not> visible s" "timeoutId s = Some tid"
    "\<not> entrySatisfiesRatio entry (t_ratio (threshold s))"
  shows "queuedEntries (snd (observeState entry rid r i s w)) = queuedEntries w \<and>
         calls (snd (observeState entry rid r i s w)) = calls w \<and>
         timers (snd (observeState entry rid r i s w)) tid = None \<and>
         \<not> visible (fst (observeState entry rid r i s w)) \<and>
         \<not> lastSatisfied (fst (observeState entry rid r i s w))"
  using assms by (simp add: observeState_eq clearTimeout_def)

lemma exitState_pending:
  assumes "hasTime (threshold s)" "lastSatisfied s" "\<not> visible s" "timeoutId s = Some tid"
  shows "queuedEntries (snd (exitState r tm i s w)) = queuedEntries w \<and>
         calls (snd (exitState r tm i s w)) = calls w \<and>
         timers (snd (exitState r tm i s w)) tid = None \<and>
         \<not> visible (fst (exitState r tm i s w)) \<and>
         \<not> lastSatisfied (fst (exitState r tm i s w))"
  using assms by (simp add: exitState_eq clearTimeout_def)

lemma unsatisfied_not_pending:
  assumes "timersOK w'" "laterTimers w w'" "timers w tid = Some t" "tid < nextTimer w"
    "stateAt w' (trid t) (tidx t) = Some s'" "\<not> lastSatisfied s'"
  shows "timers w' tid = None"
proof (rule ccontr)
  assume "timers w' tid \<noteq> None"
  then obtain t' where t': "timers w' tid = Some t'" by blast
  with assms(2,4) have "timers w tid = Some t'" by (simp add: laterTimers_def)
  with assms(3) have "t' = t" by simp
  with t' assms(1) obtain s where "stateAt w' (trid t) (tidx t) = Some s" "armed tid t s"
    by (auto simp: timersOK_def)
  with assms(5,6) show False by (simp add: armed_def)
qed

lemma invariant_timersOK: "invariant w \<Longrightarrow> timersOK w"
  by (simp add: invariant_def armedOK_def)

lemma laterTimers_gone:
  assumes "laterTimers w w'" "timers w tid = None" "tid < nextTimer w"
  shows "timers w' tid = None"
proof (rule ccontr)
  assume "timers w' tid \<noteq> None"
  then obtain t where "timers w' tid = Some t" by blast
  with assms(1,3) have "timers w tid = Some t" by (simp add: laterTimers_def)
  with assms(2) show False by simp
qed

lemma reachable_cancelled:
  assumes p: "timers (run (newObserver ths) evs) tid = Some t"
    and u: "stateAt (run (run (newObserver ths) evs) evs1) (trid t) (tidx t) = Some s'" "\<not> lastSatisfied s'"
  shows "timers (run (run (run (newObserver ths) evs) evs1) evs2) tid = None"
proof -
  let ?W = "run (newObserver ths) evs"
  let ?W1 = "run ?W evs1"
  let ?W2 = "run ?W1 evs2"
  from reachable_pending [OF p] have lt: "tid < nextTimer ?W" by blast
  have l1: "laterTimers ?W ?W1" and l2: "laterTimers ?W1 ?W2" by (rule run_laterTimers)+
  have "invariant ?W1" by (intro run_invariant reachable_invariant)
  then have "timersOK ?W1" by (rule invariant_timersOK)
  from this l1 p lt u have n1: "timers ?W1 tid = None" by (rule unsatisfied_not_pending)
  from l1 lt have "tid < nextTimer ?W1" by (simp add: laterTimers_def)
  with l2 n1 show ?thesis by (rule laterTimers_gone)
qed

lemma pending_state:
  assumes "invariant w" "timers w tid = Some t" "heap w (trid t) = Some r"
  shows "tidx t < length (thresholdStates r)" "armed tid t (thresholdStates r ! tidx t)"
    "tid < nextTimer w"
proof -
  from assms(1) have "timersOK w" by (rule invariant_timersOK)
  from this assms(2) obtain r' where "heap w (trid t) = Some r'" "tidx t < length (thresholdStates r')"
    "armed tid t (thresholdStates r' ! tidx t)" "tid < nextTimer w"
    by (rule timersOK_pending)
  with assms(3) show "tidx t < length (thresholdStates r)" "armed tid t (thresholdStates r ! tidx t)"
    "tid < nextTimer w"
    by simp_all
qed

lemma sample_cancels:
  assumes inv: "invariant w" and p: "timers w tid = Some t"
    and np: "\<not> paused w" and rec: "recordOf w (target entry) = Some (trid t, r)"
    and un: "\<not> entrySatisfiesRatio entry (t_ratio (threshold (thresholdStates r ! tidx t)))"
  shows "timers (handled entry (trid t) r w) tid = None"
    "\<exists>s'. stateAt (handled entry (trid t) r w) (trid t) (tidx t) = Some s' \<and>
          \<not> lastSatisfied s' \<and> \<not> visible s'"
    "emitted (seen entry r) entry (thresholdStates r ! tidx t) = []"
    "calls (handled entry (trid t) r w) =
       calls w @ (if concat (map (emitted (seen entry r) entry) (thresholdStates r)) = [] then []
                  else [concat (map (emitted (seen entry r) entry) (thresholdStates r))])"
proof -
  let ?s = "thresholdStates r ! tidx t"
  let ?S = "sampled entry (trid t) r w"
  let ?w' = "handled entry (trid t) r w"
  from rec have h: "heap w (trid t) = Some r" by (rule recordOf_heap)
  note ps = pending_state [OF inv p h]
  from ps(2) have a: "hasTime (threshold ?s)" "lastSatisfied ?s" "\<not> visible ?s"
    by (simp_all add: armed_def)
  from sampled_observed [of entry r "trid t" w] ps(1)
  have len: "tidx t < length (fst ?S)" and ob: "observed entry ?s (fst ?S ! tidx t)"
    by (auto simp: list_all2_conv_all_nth)
  from np len have st: "stateAt ?w' (trid t) (tidx t) = Some (fst ?S ! tidx t)"
    by (simp add: stateAt_def handled_heap)
  from ob un a have u: "\<not> lastSatisfied (fst ?S ! tidx t)" "\<not> visible (fst ?S ! tidx t)"
    by (simp_all add: observed_def)
  with st show "\<exists>s'. stateAt ?w' (trid t) (tidx t) = Some s' \<and> \<not> lastSatisfied s' \<and> \<not> visible s'"
    by simp
  from un a show "emitted (seen entry r) entry ?s = []" by (simp add: emitted_def)
  from inv have "armedOK w" by (simp add: invariant_def)
  then have "armedOK ?w'" using h by (rule handled_armedOK)
  then have "timersOK ?w'" by (simp add: armedOK_def)
  from this handled_laterTimers p ps(3) st u(1) show "timers ?w' tid = None"
    by (rule unsatisfied_not_pending)
  from inv have q: "queuedEntries w = []" by (simp add: invariant_def)
  from sampled_sameBase [of w "trid t" entry r] have cs: "calls (snd ?S) = calls w"
    by (simp add: sameBase_def)
  from np q cs show "calls ?w' =
       calls w @ (if concat (map (emitted (seen entry r) entry) (thresholdStates r)) = [] then []
                  else [concat (map (emitted (seen entry r) entry) (thresholdStates r))])"
    by (simp add: handled_def flushQueuedEntries_calls withStates_def sampled_queue)
qed

lemma stateAt_resetAll:
  assumes "heap w rid = Some (resetAll r)" "i < length (thresholdStates r)"
  shows "stateAt w rid i = Some (reset (thresholdStates r ! i))"
  using assms by (simp add: stateAt_def resetAll_def)

lemma hideExits_paused [simp]: "hideExits (w\<lparr>paused := b\<rparr>) = hideExits w"
  by (simp add: hideExits_def)

lemma onTabHidden_result:
  assumes "invariant w"
  shows "calls (onTabHidden w) = calls w @ (if hideExits w = [] then [] else [hideExits w])"
    "\<And>x. heap (onTabHidden w) x =
          (if x \<in> snd ` set (recordStore w) then map_option resetAll (heap w x) else heap w x)"
proof -
  from assms have s: "storeOK (w\<lparr>paused := True\<rparr>)" and q: "queuedEntries (w\<lparr>paused := True\<rparr>) = []"
    by (simp_all add: invariant_def storeOK_def)
  from setAllHidden_result [OF s q]
  show "calls (onTabHidden w) = calls w @ (if hideExits w = [] then [] else [hideExits w])"
    "\<And>x. heap (onTabHidden w) x =
          (if x \<in> snd ` set (recordStore w) then map_option resetAll (heap w x) else heap w x)"
    by (simp_all add: onTabHidden_def)
qed

lemma disconnect_result:
  assumes "invariant w"
  shows "calls (disconnect w) = calls w @ (if hideExits w = [] then [] else [hideExits w])"
    "\<And>x. heap (disconnect w) x =
          (if x \<in> snd ` set (recordStore w) then map_option resetAll (heap w x) else heap w x)"
proof -
  from assms have s: "storeOK w" and q: "queuedEntries w = []"
    by (simp_all add: invariant_def)
  from setAllHidden_result [OF s q]
  show "calls (disconnect w) = calls w @ (if hideExits w = [] then [] else [hideExits w])"
    "\<And>x. heap (disconnect w) x =
          (if x \<in> snd ` set (recordStore w) then map_option resetAll (heap w x) else heap w x)"
    by (simp_all add: disconnect_def)
qed

lemma hide_cancels:
  assumes inv: "invariant w" and p: "timers w tid = Some t" and h: "heap w (trid t) = Some r"
    and m: "(k, trid t) \<in> set (recordStore w)" and ev: "ev \<in> {Hide, Unload, Disconnect}"
  shows "timers (run w [ev]) tid = None"
    "heap (run w [ev]) (trid t) = Some (resetAll r)"
    "calls (run w [ev]) = calls w @ (if hideExits w = [] then [] else [hideExits w])"
proof -
  note ps = pending_state [OF inv p h]
  from m have mem: "trid t \<in> snd ` set (recordStore w)" by force
  have r: "run w [ev] = after (step w ev)" by simp
  from onTabHidden_result(2) [OF inv, of "trid t"] mem h
  have hh: "heap (onTabHidden w) (trid t) = Some (resetAll r)" by simp
  from disconnect_result(2) [OF inv, of "trid t"] mem h
  have hd: "heap (disconnect w) (trid t) = Some (resetAll r)" by simp
  from ev hh hd show hp: "heap (run w [ev]) (trid t) = Some (resetAll r)"
    by (auto simp: onWindowClosed_def)
  from ev show "calls (run w [ev]) = calls w @ (if hideExits w = [] then [] else [hideExits w])"
    by (auto simp: onWindowClosed_def onTabHidden_result(1) [OF inv] disconnect_result(1) [OF inv])
  from inv have "invariant (after (step w ev))" by (rule step_invariant)
  then have "timersOK (run w [ev])" by (simp add: invariant_timersOK)
  moreover have "laterTimers w (run w [ev])" by (rule run_laterTimers)
  moreover from hp ps(1) have "stateAt (run w [ev]) (trid t) (tidx t) = Some (reset (thresholdStates r ! tidx t))"
    by (rule stateAt_resetAll)
  moreover have "\<not> lastSatisfied (reset (thresholdStates r ! tidx t))" by (simp add: reset_def)
  ultimately show "timers (run w [ev]) tid = None"
    using p ps(3) by (intro unsatisfied_not_pending [where w = w and t = t])
qed

lemma scheduledWork_result:
  assumes "queuedEntries w = []" "heap w rid = Some r"
  shows "calls (scheduledWork rid w) = calls w @ (if forcedExits r (now w) = [] then [] else [forcedExits r (now w)])"
    "heap (scheduledWork rid w) = (heap w)(rid \<mapsto> resetAll r)"
    "work (scheduledWork rid w) = work w"
  using assms handleRecordExiting_keeps [of w rid "now w"]
  by (simp_all add: scheduledWork_def flushQueuedEntries_calls handleRecordExiting_queue
        handleRecordExiting_heap resetAll_def keeps_def flushQueuedEntries_def)

lemma work_cancels:
  assumes inv: "invariant w" and p: "timers w tid = Some t" and h: "heap w (trid t) = Some r"
    and wk: "work w = trid t # rest"
  shows "timers (run w [Work]) tid = None"
    "heap (run w [Work]) (trid t) = Some (resetAll r)"
    "calls (run w [Work]) =
       calls w @ (if forcedExits r (now w) = [] then [] else [forcedExits r (now w)])"
proof -
  note ps = pending_state [OF inv p h]
  from inv have q: "queuedEntries (w\<lparr>work := rest\<rparr>) = []" by (simp add: invariant_def)
  from h have h': "heap (w\<lparr>work := rest\<rparr>) (trid t) = Some r" by simp
  have r: "run w [Work] = scheduledWork (trid t) (w\<lparr>work := rest\<rparr>)"
    using wk by simp
  from scheduledWork_result(2) [OF q h'] show hp: "heap (run w [Work]) (trid t) = Some (resetAll r)"
    unfolding r by simp
  from scheduledWork_result(1) [OF q h'] show "calls (run w [Work]) =
       calls w @ (if forcedExits r (now w) = [] then [] else [forcedExits r (now w)])"
    unfolding r by simp
  from inv have "invariant (run w [Work])" by (rule run_invariant)
  then have "timersOK (run w [Work])" by (rule invariant_timersOK)
  moreover have "laterTimers w (run w [Work])" by (rule run_laterTimers)
  moreover from hp ps(1) have "stateAt (run w [Work]) (trid t) (tidx t) = Some (reset (thresholdStates r ! tidx t))"
    by (rule stateAt_resetAll)
  moreover have "\<not> lastSatisfied (reset (thresholdStates r ! tidx t))" by (simp add: reset_def)
  ultimately show "timers (run w [Work]) tid = None"
    using p ps(3) by (intro unsatisfied_not_pending [where w = w and t = t])
qed

lemma work_after_Work: "work (after (step w Work)) = tl (work w)"
proof (cases "work w")
  case Nil
  then show ?thesis by simp
next
  case (Cons rid rest)
  have "keeps (w\<lparr>work := rest\<rparr>) (scheduledWork rid (w\<lparr>work := rest\<rparr>))"
    unfolding scheduledWork_def
    by (rule keeps_trans [OF handleRecordExiting_keeps flushQueuedEntries_keeps])
  with Cons show ?thesis by (simp add: keeps_def)
qed

lemma work_run_Work: "work (run w (replicate n Work)) = drop n (work w)"
proof (induction n arbitrary: w)
  case 0
  show ?case by simp
next
  case (Suc n)
  have "run w (replicate (Suc n) Work) = run (after (step w Work)) (replicate n Work)"
    by (simp only: replicate_Suc run.simps)
  then show ?case by (simp only: Suc.IH work_after_Work drop_Suc)
qed

lemma queued_work_cancels:
  assumes inv: "invariant w" and p: "timers w tid = Some t"
    and wk: "work w = pre @ trid t # rest"
  shows "timers (run w (replicate (Suc (length pre)) Work)) tid = None"
proof -
  let ?w1 = "run w (replicate (length pre) Work)"
  have "replicate (Suc (length pre)) Work = replicate (length pre) Work @ [Work]"
    by (simp add: replicate_append_same)
  then have split: "run w (replicate (Suc (length pre)) Work) = run ?w1 [Work]"
    by (simp only: run_append)
  from inv have inv1: "invariant ?w1" by (rule run_invariant)
  have l1: "laterTimers w ?w1" by (rule run_laterTimers)
  from invariant_timersOK [OF inv] p have lt: "tid < nextTimer w" by (auto simp: timersOK_def)
  with l1 have lt1: "tid < nextTimer ?w1" by (simp add: laterTimers_def)
  from wk have wk1: "work ?w1 = trid t # rest" by (simp add: work_run_Work)
  show ?thesis
  proof (cases "timers ?w1 tid")
    case None
    from run_laterTimers None lt1 have "timers (run ?w1 [Work]) tid = None"
      by (rule laterTimers_gone)
    then show ?thesis by (simp only: split)
  next
    case (Some t1)
    with l1 lt have "timers w tid = Some t1" by (simp add: laterTimers_def)
    with p have "t1 = t" by simp
    with Some have p1: "timers ?w1 tid = Some t" by simp
    from invariant_timersOK [OF inv1] p1 obtain r1 where "heap ?w1 (trid t) = Some r1"
      "tidx t < length (thresholdStates r1)" "armed tid t (thresholdStates r1 ! tidx t)"
      "tid < nextTimer ?w1"
      by (rule timersOK_pending)
    from work_cancels(1) [OF inv1 p1 this(1) wk1] show ?thesis by (simp only: split)
  qed
qed

text \<open>
  Claim C4. While the timer of a rising edge is pending, its threshold has a time and its
  state has \<open>lastSatisfied\<close> true and is not yet visible, so it is not confirmed visible.
  If the ratio then becomes unsatisfied, the timer is cleared and no event is emitted for
  the state:
  \<^item> the loop bodies of \<open>handleObserverEntry\<close> and of \<open>handleRecordExiting\<close> clear the
    timer of such a state, queue nothing and invoke no callback;
  \<^item> a sample of the state's element that does not satisfy the ratio, handled while not
    paused, leaves the timer cleared and the state unsatisfied and not visible; the state
    adds nothing to the events of that sample;
  \<^item> hiding the page, unloading it and \<open>disconnect\<close> force the exit of every record of
    the store, and the scheduled work of \<open>unobserve\<close> forces the exit of its record when
    its turn has come: each leaves the timer cleared and the record reset, and delivers
    the forced exits of the states that were confirmed visible and nothing else.

  Once the state's ratio is unsatisfied the timer is not pending again, whatever happens
  later, so it never runs and the entering event of that rising edge is never emitted.
\<close>

theorem early_exit_cancels_timer:
  assumes "timers (run (newObserver ths) evs) tid = Some t"
  shows "\<exists>r s.
     heap (run (newObserver ths) evs) (trid t) = Some r \<and> tidx t < length (thresholdStates r) \<and>
     s = thresholdStates r ! tidx t \<and>
     hasTime (threshold s) \<and> lastSatisfied s \<and> \<not> visible s \<and> \<not> confirmed s \<and>
     (\<forall>entry rid r' i w0. \<not> entrySatisfiesRatio entry (t_ratio (threshold s)) \<longrightarrow>
        queuedEntries (snd (observeState entry rid r' i s w0)) = queuedEntries w0 \<and>
        calls (snd (observeState entry rid r' i s w0)) = calls w0 \<and>
        timers (snd (observeState entry rid r' i s w0)) tid = None \<and>
        \<not> visible (fst (observeState entry rid r' i s w0)) \<and>
        \<not> lastSatisfied (fst (observeState entry rid r' i s w0))) \<and>
     (\<forall>r' tm i w0.
        queuedEntries (snd (exitState r' tm i s w0)) = queuedEntries w0 \<and>
        calls (snd (exitState r' tm i s w0)) = calls w0 \<and>
        timers (snd (exitState r' tm i s w0)) tid = None \<and>
        \<not> visible (fst (exitState r' tm i s w0)) \<and>
        \<not> lastSatisfied (fst (exitState r' tm i s w0))) \<and>
     (\<forall>entry rest.
        \<not> paused (run (newObserver ths) evs) \<and>
        recordOf (run (newObserver ths) evs) (target entry) = Some (trid t, r) \<and>
        \<not> entrySatisfiesRatio entry (t_ratio (threshold s)) \<longrightarrow>
        (\<exists>w' s'.
           handleObserverEntry entry (run (newObserver ths) evs) = Inr w' \<and>
           step (run (newObserver ths) evs) (Samples (entry # rest)) = step w' (Samples rest) \<and>
           timers w' tid = None \<and>
           stateAt w' (trid t) (tidx t) = Some s' \<and> \<not> lastSatisfied s' \<and> \<not> visible s' \<and>
           emitted (seen entry r) entry s = [] \<and>
           calls w' = calls (run (newObserver ths) evs) @
             (if concat (map (emitted (seen entry r) entry) (thresholdStates r)) = [] then []
              else [concat (map (emitted (seen entry r) entry) (thresholdStates r))]))) \<and>
     (\<forall>k ev.
        (k, trid t) \<in> set (recordStore (run (newObserver ths) evs)) \<and>
        ev \<in> {Hide, Unload, Disconnect} \<longrightarrow>
        timers (run (run (newObserver ths) evs) [ev]) tid = None \<and>
        heap (run (run (newObserver ths) evs) [ev]) (trid t) = Some (resetAll r) \<and>
        calls (run (run (newObserver ths) evs) [ev]) =
          calls (run (newObserver ths) evs) @
            (if hideExits (run (newObserver ths) evs) = [] then []
             else [hideExits (run (newObserver ths) evs)])) \<and>
     (\<forall>rest. work (run (newObserver ths) evs) = trid t # rest \<longrightarrow>
        timers (run (run (newObserver ths) evs) [Work]) tid = None \<and>
        heap (run (run (newObserver ths) evs) [Work]) (trid t) = Some (resetAll r) \<and>
        calls (run (run (newObserver ths) evs) [Work]) =
          calls (run (newObserver ths) evs) @
            (if forcedExits r (now (run (newObserver ths) evs)) = [] then []
             else [forcedExits r (now (run (newObserver ths) evs))])) \<and>
     (\<forall>pre rest. work (run (newObserver ths) evs) = pre @ trid t # rest \<longrightarrow>
        timers (run (run (newObserver ths) evs) (replicate (Suc (length pre)) Work)) tid = None) \<and>
     (\<forall>evs1 evs2 s'.
        stateAt (run (run (newObserver ths) evs) evs1) (trid t) (tidx t) = Some s' \<and>
        \<not> lastSatisfied s' \<longrightarrow>
        timers (run (run (run (newObserver ths) evs) evs1) evs2) tid = None \<and>
        step (run (run (run (newObserver ths) evs) evs1) evs2) (Timeout tid)
          = Inr (run (run (run (newObserver ths) evs) evs1) evs2))"
proof -
  let ?W = "run (newObserver ths) evs"
  have inv: "invariant ?W" by (rule reachable_invariant)
  from reachable_pending [OF assms] obtain r where r: "heap ?W (trid t) = Some r"
    "tidx t < length (thresholdStates r)" "armed tid t (thresholdStates r ! tidx t)"
    by blast
  let ?s = "thresholdStates r ! tidx t"
  from r(3) have a: "hasTime (threshold ?s)" "lastSatisfied ?s" "\<not> visible ?s" "timeoutId ?s = Some tid"
    by (simp_all add: armed_def)
  from a have nc: "\<not> confirmed ?s" by (simp add: confirmed_def)
  have smp: "\<exists>w' s'.
           handleObserverEntry entry ?W = Inr w' \<and>
           step ?W (Samples (entry # rest)) = step w' (Samples rest) \<and>
           timers w' tid = None \<and>
           stateAt w' (trid t) (tidx t) = Some s' \<and> \<not> lastSatisfied s' \<and> \<not> visible s' \<and>
           emitted (seen entry r) entry ?s = [] \<and>
           calls w' = calls ?W @
             (if concat (map (emitted (seen entry r) entry) (thresholdStates r)) = [] then []
              else [concat (map (emitted (seen entry r) entry) (thresholdStates r))])"
    if h: "\<not> paused ?W \<and> recordOf ?W (target entry) = Some (trid t, r) \<and>
        \<not> entrySatisfiesRatio entry (t_ratio (threshold ?s))" for entry rest
  proof -
    from h have np: "\<not> paused ?W" and rec: "recordOf ?W (target entry) = Some (trid t, r)"
      and un: "\<not> entrySatisfiesRatio entry (t_ratio (threshold ?s))" by simp_all
    let ?w' = "handled entry (trid t) r ?W"
    from rec have res: "handleObserverEntry entry ?W = Inr ?w'" by (rule handleObserverEntry_handled)
    then have cont: "step ?W (Samples (entry # rest)) = step ?w' (Samples rest)" by simp
    note sc = sample_cancels [OF inv assms np rec un]
    from sc(2) obtain s' where s': "stateAt ?w' (trid t) (tidx t) = Some s'" "\<not> lastSatisfied s'"
      "\<not> visible s'" by blast
    show ?thesis
      by (intro exI [of _ ?w'] exI [of _ s'] conjI) (fact res cont sc(1) s' sc(3) sc(4))+
  qed
  have hid: "timers (run ?W [ev]) tid = None \<and>
        heap (run ?W [ev]) (trid t) = Some (resetAll r) \<and>
        calls (run ?W [ev]) = calls ?W @ (if hideExits ?W = [] then [] else [hideExits ?W])"
    if h: "(k, trid t) \<in> set (recordStore ?W) \<and> ev \<in> {Hide, Unload, Disconnect}" for k ev
  proof -
    from h have m: "(k, trid t) \<in> set (recordStore ?W)" and ev: "ev \<in> {Hide, Unload, Disconnect}"
      by simp_all
    note hc = hide_cancels [OF inv assms r(1) m ev]
    show ?thesis by (intro conjI) (fact hc)+
  qed
  have wrk: "timers (run ?W [Work]) tid = None \<and>
        heap (run ?W [Work]) (trid t) = Some (resetAll r) \<and>
        calls (run ?W [Work]) =
          calls ?W @ (if forcedExits r (now ?W) = [] then [] else [forcedExits r (now ?W)])"
    if h: "work ?W = trid t # rest" for rest
  proof -
    note wc = work_cancels [OF inv assms r(1) h]
    show ?thesis by (intro conjI) (fact wc)+
  qed
  have qwrk: "timers (run ?W (replicate (Suc (length pre)) Work)) tid = None"
    if h: "work ?W = pre @ trid t # rest" for pre rest
    using inv assms h by (rule queued_work_cancels)
  have never: "timers (run (run ?W evs1) evs2) tid = None \<and>
        step (run (run ?W evs1) evs2) (Timeout tid) = Inr (run (run ?W evs1) evs2)"
    if "stateAt (run ?W evs1) (trid t) (tidx t) = Some s' \<and> \<not> lastSatisfied s'" for evs1 evs2 s'
  proof -
    from that have "timers (run (run ?W evs1) evs2) tid = None"
      using reachable_cancelled [OF assms, of evs1 s' evs2] by simp
    then show ?thesis by (simp add: due_def)
  qed
  show ?thesis
  proof (intro exI [of _ r] exI [of _ ?s] conjI)
    show "heap ?W (trid t) = Some r" "tidx t < length (thresholdStates r)" by fact+
    show "?s = thresholdStates r ! tidx t" by simp
    show "hasTime (threshold ?s)" "lastSatisfied ?s" "\<not> visible ?s" "\<not> confirmed ?s" by fact+
    show "\<forall>entry rid r' i w0. \<not> entrySatisfiesRatio entry (t_ratio (threshold ?s)) \<longrightarrow>
        queuedEntries (snd (observeState entry rid r' i ?s w0)) = queuedEntries w0 \<and>
        calls (snd (observeState entry rid r' i ?s w0)) = calls w0 \<and>
        timers (snd (observeState entry rid r' i ?s w0)) tid = None \<and>
        \<not> visible (fst (observeState entry rid r' i ?s w0)) \<and>
        \<not> lastSatisfied (fst (observeState entry rid r' i ?s w0))"
      using observeState_unsatisfied_pending [OF a] by (intro allI impI)
    show "\<forall>r' tm i w0.
        queuedEntries (snd (exitState r' tm i ?s w0)) = queuedEntries w0 \<and>
        calls (snd (exitState r' tm i ?s w0)) = calls w0 \<and>
        timers (snd (exitState r' tm i ?s w0)) tid = None \<and>
        \<not> visible (fst (exitState r' tm i ?s w0)) \<and>
        \<not> lastSatisfied (fst (exitState r' tm i ?s w0))"
      using exitState_pending [OF a] by (intro allI)
    show "\<forall>entry rest.
        \<not> paused ?W \<and> recordOf ?W (target entry) = Some (trid t, r) \<and>
        \<not> entrySatisfiesRatio entry (t_ratio (threshold ?s)) \<longrightarrow>
        (\<exists>w' s'.
           handleObserverEntry entry ?W = Inr w' \<and>
           step ?W (Samples (entry # rest)) = step w' (Samples rest) \<and>
           timers w' tid = None \<and>
           stateAt w' (trid t) (tidx t) = Some s' \<and> \<not> lastSatisfied s' \<and> \<not> visible s' \<and>
           emitted (seen entry r) entry ?s = [] \<and>
           calls w' = calls ?W @
             (if concat (map (emitted (seen entry r) entry) (thresholdStates r)) = [] then []
              else [concat (map (emitted (seen entry r) entry) (thresholdStates r))]))"
      using smp by (intro allI impI)
    show "\<forall>k ev.
        (k, trid t) \<in> set (recordStore ?W) \<and> ev \<in> {Hide, Unload, Disconnect} \<longrightarrow>
        timers (run ?W [ev]) tid = None \<and>
        heap (run ?W [ev]) (trid t) = Some (resetAll r) \<and>
        calls (run ?W [ev]) = calls ?W @ (if hideExits ?W = [] then [] else [hideExits ?W])"
      using hid by (intro allI impI)
    show "\<forall>rest. work ?W = trid t # rest \<longrightarrow>
        timers (run ?W [Work]) tid = None \<and>
        heap (run ?W [Work]) (trid t) = Some (resetAll r) \<and>
        calls (run ?W [Work]) =
          calls ?W @ (if forcedExits r (now ?W) = [] then [] else [forcedExits r (now ?W)])"
      using wrk by (intro allI impI)
    show "\<forall>pre rest. work ?W = pre @ trid t # rest \<longrightarrow>
        timers (run ?W (replicate (Suc (length pre)) Work)) tid = None"
      using qwrk by (intro allI impI)
    show "\<forall>evs1 evs2 s'.
        stateAt (run ?W evs1) (trid t) (tidx t) = Some s' \<and> \<not> lastSatisfied s' \<longrightarrow>
        timers (run (run ?W evs1) evs2) tid = None \<and>
        step (run (run ?W evs1) evs2) (Timeout tid) = Inr (run (run ?W evs1) evs2)"
      using never by (intro allI impI)
  qed
qed

theorem early_exit_cancels_timer_witness:
  "timers dwelling 0 = Some viewableTimer \<and>
   map_option lastSatisfied (stateAt (run dwelling leaving) 0 0) = Some False \<and>
   timers (run (run dwelling leaving) [Tick 1000]) 0 = None \<and>
   step (run (run dwelling leaving) [Tick 1000]) (Timeout 0) = Inr (run (run dwelling leaving) [Tick 1000]) \<and>
   calls (run (run dwelling leaving) [Tick 1000]) = [] \<and>
   \<not> paused dwelling \<and> recordOf dwelling 7 = Some (0, dwellingRecord) \<and>
   (\<exists>w'. handleObserverEntry (sample 7 (1/10) 500) dwelling = Inr w' \<and>
         timers w' 0 = None \<and> calls w' = []) \<and>
   (0, 0) \<in> set (recordStore dwelling) \<and>
   timers (run dwelling [Hide]) 0 = None \<and> calls (run dwelling [Hide]) = [] \<and>
   timers (run dwelling [Unload]) 0 = None \<and> timers (run dwelling [Disconnect]) 0 = None \<and>
   timers unobserved 0 = Some viewableTimer \<and> work unobserved = [0] \<and>
   timers (run unobserved [Work]) 0 = None \<and> calls (run unobserved [Work]) = []"
proof -
  have h: "timers dwelling 0 = Some viewableTimer" by (rule dwelling_timer)
  then have h': "timers (run (newObserver [viewable]) [Observe 7 None, Samples [sample 7 (3/5) 0] ]) 0
      = Some viewableTimer"
    by (simp only: dwelling_def)
  have u: "map_option lastSatisfied (stateAt (run dwelling leaving) 0 0) = Some False" by code_simp
  then obtain s' where s': "stateAt (run dwelling leaving) (trid viewableTimer) (tidx viewableTimer) = Some s'"
    "\<not> lastSatisfied s'"
    by (auto simp: viewableTimer_def)
  have c: "calls (run (run dwelling leaving) [Tick 1000]) = []" by code_simp
  have np: "\<not> paused dwelling" by code_simp
  have rec: "recordOf dwelling 7 = Some (0, dwellingRecord)" by code_simp
  have hr: "heap dwelling 0 = Some dwellingRecord" by code_simp
  have un: "\<not> entrySatisfiesRatio (sample 7 (1/10) 500) (t_ratio (threshold (thresholdStates dwellingRecord ! 0)))"
    by code_simp
  have em: "concat (map (emitted (seen (sample 7 (1/10) 500) dwellingRecord) (sample 7 (1/10) 500))
      (thresholdStates dwellingRecord)) = []"
    by code_simp
  have cd: "calls dwelling = []" by code_simp
  have st: "(0, 0) \<in> set (recordStore dwelling)" by code_simp
  have he: "hideExits dwelling = []" by code_simp
  have g: "timers unobserved 0 = Some viewableTimer" by code_simp
  then have g': "timers (run (newObserver [viewable]) [Observe 7 None, Samples [sample 7 (3/5) 0], Unobserve 7]) 0
      = Some viewableTimer"
    by (simp only: unobserved_def)
  have wk: "work unobserved = [0]" by code_simp
  have hu: "heap unobserved 0 = Some dwellingRecord" by code_simp
  have cu: "calls unobserved = []" by code_simp
  have fe: "forcedExits dwellingRecord (now unobserved) = []" by code_simp
  from early_exit_cancels_timer [OF h', folded dwelling_def]
  obtain r s where r: "heap dwelling (trid viewableTimer) = Some r"
    and smp: "\<forall>entry rest.
        \<not> paused dwelling \<and> recordOf dwelling (target entry) = Some (trid viewableTimer, r) \<and>
        \<not> entrySatisfiesRatio entry (t_ratio (threshold s)) \<longrightarrow>
        (\<exists>w' s'.
           handleObserverEntry entry dwelling = Inr w' \<and>
           step dwelling (Samples (entry # rest)) = step w' (Samples rest) \<and>
           timers w' 0 = None \<and>
           stateAt w' (trid viewableTimer) (tidx viewableTimer) = Some s' \<and>
           \<not> lastSatisfied s' \<and> \<not> visible s' \<and>
           emitted (seen entry r) entry s = [] \<and>
           calls w' = calls dwelling @
             (if concat (map (emitted (seen entry r) entry) (thresholdStates r)) = [] then []
              else [concat (map (emitted (seen entry r) entry) (thresholdStates r))]))"
    and s: "s = thresholdStates r ! tidx viewableTimer"
    and hid: "\<forall>k ev.
        (k, trid viewableTimer) \<in> set (recordStore dwelling) \<and> ev \<in> {Hide, Unload, Disconnect} \<longrightarrow>
        timers (run dwelling [ev]) 0 = None \<and>
        heap (run dwelling [ev]) (trid viewableTimer) = Some (resetAll r) \<and>
        calls (run dwelling [ev]) = calls dwelling @ (if hideExits dwelling = [] then [] else [hideExits dwelling])"
    and never: "\<forall>evs1 evs2 s'.
        stateAt (run dwelling evs1) (trid viewableTimer) (tidx viewableTimer) = Some s' \<and>
        \<not> lastSatisfied s' \<longrightarrow>
        timers (run (run dwelling evs1) evs2) 0 = None \<and>
        step (run (run dwelling evs1) evs2) (Timeout 0) = Inr (run (run dwelling evs1) evs2)"
    by (elim exE conjE) (rule that)
  from never s' have n: "timers (run (run dwelling leaving) [Tick 1000]) 0 = None \<and>
        step (run (run dwelling leaving) [Tick 1000]) (Timeout 0) = Inr (run (run dwelling leaving) [Tick 1000])"
    by blast
  from r hr have re: "r = dwellingRecord" by (simp add: viewableTimer_def)
  from smp [rule_format, of "sample 7 (1/10) 500" "[]"] np rec un s re
  obtain w' where "handleObserverEntry (sample 7 (1/10) 500) dwelling = Inr w'" "timers w' 0 = None"
    "calls w' = calls dwelling @
             (if concat (map (emitted (seen (sample 7 (1/10) 500) dwellingRecord) (sample 7 (1/10) 500))
                   (thresholdStates dwellingRecord)) = [] then []
              else [concat (map (emitted (seen (sample 7 (1/10) 500) dwellingRecord) (sample 7 (1/10) 500))
                   (thresholdStates dwellingRecord))])"
    by (auto simp: viewableTimer_def sample_def)
  with em cd have sm: "\<exists>w'. handleObserverEntry (sample 7 (1/10) 500) dwelling = Inr w' \<and>
         timers w' 0 = None \<and> calls w' = []"
    by (intro exI [of _ w']) simp
  from st have st': "(0, trid viewableTimer) \<in> set (recordStore dwelling)" by (simp add: viewableTimer_def)
  from hid [rule_format, of 0 Hide] st' he cd
  have hd: "timers (run dwelling [Hide]) 0 = None" "calls (run dwelling [Hide]) = []" by simp_all
  from hid [rule_format, of 0 Unload] st'
  have ul: "timers (run dwelling [Unload]) 0 = None" by simp
  from hid [rule_format, of 0 Disconnect] st'
  have dc: "timers (run dwelling [Disconnect]) 0 = None" by simp
  from early_exit_cancels_timer [OF g', folded unobserved_def]
  obtain r2 s2 where r2: "heap unobserved (trid viewableTimer) = Some r2"
    and wrk: "\<forall>rest. work unobserved = trid viewableTimer # rest \<longrightarrow>
        timers (run unobserved [Work]) 0 = None \<and>
        heap (run unobserved [Work]) (trid viewableTimer) = Some (resetAll r2) \<and>
        calls (run unobserved [Work]) =
          calls unobserved @
            (if forcedExits r2 (now unobserved) = [] then [] else [forcedExits r2 (now unobserved)])"
    by (elim exE conjE) (rule that)
  from r2 hu have re2: "r2 = dwellingRecord" by (simp add: viewableTimer_def)
  from wk have wk': "work unobserved = trid viewableTimer # []" by (simp add: viewableTimer_def)
  from wrk [rule_format, OF wk'] re2 fe cu
  have wr: "timers (run unobserved [Work]) 0 = None" "calls (run unobserved [Work]) = []" by simp_all
  from n have n1: "timers (run (run dwelling leaving) [Tick 1000]) 0 = None"
    and n2: "step (run (run dwelling leaving) [Tick 1000]) (Timeout 0) = Inr (run (run dwelling leaving) [Tick 1000])"
    by simp_all
  show ?thesis
    by (intro conjI) (fact h u n1 n2 c np rec sm st hd ul dc g wk wr)+
qed

section \<open>Entering a threshold without a time\<close>

lemma internalCallback_append:
  "internalCallback (xs @ ys) w =
     (case internalCallback xs w of Inl err \<Rightarrow> Inl err | Inr w' \<Rightarrow> internalCallback ys w')"
  by (induction xs arbitrary: w) (simp_all split: sum.splits)

lemma emitted_sample:
  "e \<in> set (emitted r entry s) \<Longrightarrow> target e = target entry \<and> time e = time entry"
  by (auto simp: emitted_def generateSpanielEntry_def split: if_splits)

text \<open>
  The entering events of two samples of one batch arrive in two callback invocations, one
  for each sample, and not in one flush for the batch.
\<close>

theorem two_samples_two_flushes:
  "map (map (\<lambda>e. (target e, label e, entering e, duration e)))
     (calls (run (newObserver [plain ''50pct'' (1/2)])
        [Observe 7 None, Observe 8 None, Samples [sample 7 (3/5) 2000, sample 8 (3/5) 2000] ]))
   = [ [(7, ''50pct'', Some True, 0)], [(8, ''50pct'', Some True, 0)] ]"
  by code_simp

text \<open>
  Claim C5. For a threshold without a time, the sample that first satisfies its ratio
  (the ratio is satisfied and \<open>lastSatisfied\<close> is false) makes \<open>handleObserverEntry\<close> push
  an entering event with duration 0 onto the queue and deliver it in the one callback
  invocation that ends the handling of that sample; the state is then visible. The queue
  is flushed after every sample and not once for the batch: wherever the sample stands in
  its batch, the invocation delivers what was queued before the sample and events of this
  sample only, and the rest of the batch is handled from there.
\<close>

theorem plain_threshold_enters_in_flush:
  assumes "step w (Samples pre) = Inr w1"
    and "\<not> paused w1" and "recordOf w1 (target entry) = Some (rid, r)"
    and "i < length (thresholdStates r)"
    and "\<not> hasTime (threshold (thresholdStates r ! i))"
    and "entrySatisfiesRatio entry (t_ratio (threshold (thresholdStates r ! i)))"
    and "\<not> lastSatisfied (thresholdStates r ! i)"
  shows "\<exists>w' batch s'.
     handleObserverEntry entry w1 = Inr w' \<and>
     step w (Samples (pre @ [entry])) = Inr w' \<and>
     (\<forall>post. step w (Samples (pre @ entry # post)) = step w' (Samples post)) \<and>
     calls w' = calls w1 @ [batch] \<and> queuedEntries w' = [] \<and>
     (\<forall>e \<in> set batch. e \<in> set (queuedEntries w1) \<or> target e = target entry \<and> time e = time entry) \<and>
     \<lparr>intersectionRatio = intersectionRatio entry, time = time entry,
      rootBounds = rootBounds entry, boundingClientRect = boundingClientRect entry,
      intersectionRect = intersectionRect entry, target = target entry,
      duration = 0, entering = Some True, label = t_label (threshold (thresholdStates r ! i)),
      payload = r_payload r\<rparr> \<in> set batch \<and>
     stateAt w' rid i = Some s' \<and> visible s' \<and> lastSatisfied s'"
proof -
  let ?s = "thresholdStates r ! i"
  let ?S = "sampled entry rid r w1"
  let ?e = "\<lparr>intersectionRatio = intersectionRatio entry, time = time entry,
      rootBounds = rootBounds entry, boundingClientRect = boundingClientRect entry,
      intersectionRect = intersectionRect entry, target = target entry,
      duration = 0, entering = Some True, label = t_label (threshold ?s),
      payload = r_payload r\<rparr>"
  let ?w' = "handled entry rid r w1"
  let ?new = "concat (map (emitted (seen entry r) entry) (thresholdStates r))"
  have res: "handleObserverEntry entry w1 = Inr ?w'"
    using assms(3) by (rule handleObserverEntry_handled)
  from assms(1) have pre: "internalCallback pre w = Inr w1" by simp
  have cont: "step w (Samples (pre @ entry # post)) = step ?w' (Samples post)" for post
    by (simp add: internalCallback_append pre res)
  from cont [of "[]"] have alone: "step w (Samples (pre @ [entry])) = Inr ?w'" by simp
  from assms(4) have mem: "?s \<in> set (thresholdStates r)" by simp
  have "emitted (seen entry r) entry ?s = [?e]"
    using assms(5,6,7) by (simp add: emitted_def generateSpanielEntry_def seen_def)
  with mem have "?e \<in> set ?new" by force
  then have q: "?e \<in> set (queuedEntries (snd ?S))" by (simp add: sampled_queue)
  then have ne: "queuedEntries (snd ?S) \<noteq> []" by auto
  from sampled_sameBase [of w1 rid entry r] have cs: "calls (snd ?S) = calls w1"
    by (simp add: sameBase_def)
  from assms(2) ne cs have calls: "calls ?w' = calls w1 @ [queuedEntries (snd ?S)]"
    by (simp add: handled_def flushQueuedEntries_calls withStates_def)
  from assms(2) have empty: "queuedEntries ?w' = []" by (simp add: handled_def)
  have own: "\<forall>e \<in> set (queuedEntries (snd ?S)).
      e \<in> set (queuedEntries w1) \<or> target e = target entry \<and> time e = time entry"
    by (auto simp: sampled_queue dest: emitted_sample)
  from sampled_observed [of entry r rid w1] assms(4)
  have len: "i < length (fst ?S)" and ob: "observed entry ?s (fst ?S ! i)"
    by (auto simp: list_all2_conv_all_nth)
  from assms(2) len have st: "stateAt ?w' rid i = Some (fst ?S ! i)"
    by (simp add: stateAt_def handled_heap)
  from ob assms(5,6,7) have v: "visible (fst ?S ! i)" "lastSatisfied (fst ?S ! i)"
    by (simp_all add: observed_def)
  from cont have cont': "\<forall>post. step w (Samples (pre @ entry # post)) = step ?w' (Samples post)"
    by (intro allI)
  show ?thesis
    by (intro exI [of _ ?w'] exI [of _ "queuedEntries (snd ?S)"] exI [of _ "fst ?S ! i"] conjI)
       (fact res alone cont' calls empty own q st v)+
qed

theorem plain_threshold_enters_in_flush_witness:
  "step pair (Samples [sample 7 (3/5) 2000]) = Inr afterFirst \<and>
   \<not> paused afterFirst \<and>
   recordOf afterFirst (target (sample 8 (3/5) 2000))
     = Some (1, freshRecord 8 None [plain ''50pct'' (1/2)]) \<and>
   map (map (\<lambda>e. (target e, label e, entering e, duration e))) (calls afterFirst)
     = [ [(7, ''50pct'', Some True, 0)] ] \<and>
   (\<exists>w' batch s'.
     handleObserverEntry (sample 8 (3/5) 2000) afterFirst = Inr w' \<and>
     step pair (Samples [sample 7 (3/5) 2000, sample 8 (3/5) 2000]) = Inr w' \<and>
     calls w' = calls afterFirst @ [batch] \<and>
     queuedEntries w' = [] \<and>
     \<lparr>intersectionRatio = 3/5, time = 2000, rootBounds = emptyRect,
      boundingClientRect = emptyRect, intersectionRect = emptyRect, target = 8,
      duration = 0, entering = Some True, label = ''50pct'', payload = None\<rparr> \<in> set batch \<and>
     stateAt w' 1 0 = Some s' \<and> visible s' \<and> lastSatisfied s')"
proof -
  let ?R = "freshRecord 8 None [plain ''50pct'' (1/2)]"
  have r7: "recordOf pair (target (sample 7 (3/5) 2000))
      = Some (0, freshRecord 7 None [plain ''50pct'' (1/2)])"
    by code_simp
  have p: "step pair (Samples [sample 7 (3/5) 2000]) = Inr afterFirst"
    using handleObserverEntry_handled [OF r7] by (simp add: afterFirst_def)
  have a: "\<not> paused afterFirst" by code_simp
  have b: "recordOf afterFirst (target (sample 8 (3/5) 2000)) = Some (1, ?R)" by code_simp
  have c: "0 < length (thresholdStates ?R)" by code_simp
  have d: "\<not> hasTime (threshold (thresholdStates ?R ! 0))" by code_simp
  have e: "entrySatisfiesRatio (sample 8 (3/5) 2000) (t_ratio (threshold (thresholdStates ?R ! 0)))"
    by code_simp
  have f: "\<not> lastSatisfied (thresholdStates ?R ! 0)" by code_simp
  have g: "map (map (\<lambda>e. (target e, label e, entering e, duration e))) (calls afterFirst)
     = [ [(7, ''50pct'', Some True, 0)] ]"
    by code_simp
  from plain_threshold_enters_in_flush [OF p a b c d e f]
  obtain w' batch s' where
    "handleObserverEntry (sample 8 (3/5) 2000) afterFirst = Inr w'"
    "step pair (Samples ([sample 7 (3/5) 2000] @ [sample 8 (3/5) 2000])) = Inr w'"
    "calls w' = calls afterFirst @ [batch]" "queuedEntries w' = []"
    "\<lparr>intersectionRatio = intersectionRatio (sample 8 (3/5) 2000), time = time (sample 8 (3/5) 2000),
      rootBounds = rootBounds (sample 8 (3/5) 2000),
      boundingClientRect = boundingClientRect (sample 8 (3/5) 2000),
      intersectionRect = intersectionRect (sample 8 (3/5) 2000), target = target (sample 8 (3/5) 2000),
      duration = 0, entering = Some True, label = t_label (threshold (thresholdStates ?R ! 0)),
      payload = r_payload ?R\<rparr> \<in> set batch"
    "stateAt w' 1 0 = Some s'" "visible s'" "lastSatisfied s'"
    by (elim exE conjE) (rule that)
  then have "handleObserverEntry (sample 8 (3/5) 2000) afterFirst = Inr w' \<and>
     step pair (Samples [sample 7 (3/5) 2000, sample 8 (3/5) 2000]) = Inr w' \<and>
     calls w' = calls afterFirst @ [batch] \<and>
     queuedEntries w' = [] \<and>
     \<lparr>intersectionRatio = 3/5, time = 2000, rootBounds = emptyRect,
      boundingClientRect = emptyRect, intersectionRect = emptyRect, target = 8,
      duration = 0, entering = Some True, label = ''50pct'', payload = None\<rparr> \<in> set batch \<and>
     stateAt w' 1 0 = Some s' \<and> visible s' \<and> lastSatisfied s'"
    by (simp add: sample_def freshRecord_def plain_def)
  then have "\<exists>w' batch s'.
     handleObserverEntry (sample 8 (3/5) 2000) afterFirst = Inr w' \<and>
     step pair (Samples [sample 7 (3/5) 2000, sample 8 (3/5) 2000]) = Inr w' \<and>
     calls w' = calls afterFirst @ [batch] \<and>
     queuedEntries w' = [] \<and>
     \<lparr>intersectionRatio = 3/5, time = 2000, rootBounds = emptyRect,
      boundingClientRect = emptyRect, intersectionRect = emptyRect, target = 8,
      duration = 0, entering = Some True, label = ''50pct'', payload = None\<rparr> \<in> set batch \<and>
     stateAt w' 1 0 = Some s' \<and> visible s' \<and> lastSatisfied s'"
    by (intro exI)
  with p a b g show ?thesis by (intro conjI)
qed

section \<open>Hiding the page\<close>

lemma exitState_timers:
  "timers (snd (exitState r tm i s w)) tid = Some t \<Longrightarrow> timers w tid = Some t"
  by (auto simp: exitState_eq clearTimeout_def split: if_splits option.splits)

lemma handleRecordExiting_timers:
  "timers (handleRecordExiting rid tm w) tid = Some t \<Longrightarrow> timers w tid = Some t"
proof (cases "heap w rid")
  case None
  assume "timers (handleRecordExiting rid tm w) tid = Some t"
  with None show ?thesis by (simp add: handleRecordExiting_def)
next
  case (Some r)
  assume a: "timers (handleRecordExiting rid tm w) tid = Some t"
  have "\<forall>tid t. timers (snd (forEach (exitState r tm) 0 (thresholdStates r) w)) tid = Some t
          \<longrightarrow> timers w tid = Some t"
    by (rule forEach_pres [where R = "\<lambda>w w'. \<forall>tid t. timers w' tid = Some t \<longrightarrow> timers w tid = Some t"])
       (auto dest: exitState_timers)
  with a Some show ?thesis by (simp add: handleRecordExiting_eq withStates_def)
qed

lemma exitAll_timers:
  "timers (exitAll ids tm w) tid = Some t \<Longrightarrow> timers w tid = Some t"
proof (induction ids arbitrary: w)
  case Nil
  then show ?case by simp
next
  case (Cons k ids)
  show ?case
  proof (cases "recordAt w k")
    case None
    with Cons.prems Cons.IH [of w] show ?thesis by simp
  next
    case (Some p)
    with Cons.prems have "timers (exitAll ids tm (handleRecordExiting (fst p) tm w)) tid = Some t"
      by (cases p) simp
    then have "timers (handleRecordExiting (fst p) tm w) tid = Some t" by (rule Cons.IH)
    then show ?thesis by (rule handleRecordExiting_timers)
  qed
qed

lemma onTabHidden_timers:
  "timers (onTabHidden w) tid = Some t \<Longrightarrow> timers w tid = Some t"
  using exitAll_timers [of "map fst (recordStore w)" "now w" "w\<lparr>paused := True\<rparr>" tid t]
  by (simp add: onTabHidden_def setAllHidden_def)

text \<open>
  Hiding the page does not cancel every pending timer. \<open>unobserve\<close> takes the record out
  of the store at once and leaves its forced exit to the scheduled work; when the page
  is hidden before that work has run, the timer of the record is still pending after the
  hide, and a second later it runs, while the observer is paused, and delivers its
  entering event.
\<close>

theorem hide_keeps_timer_of_unobserved_record:
  "timers (run (newObserver [viewable])
        [Observe 7 None, Samples [sample 7 (3/5) 0], Unobserve 7]) 0 = Some viewableTimer \<and>
   timers (run (newObserver [viewable])
        [Observe 7 None, Samples [sample 7 (3/5) 0], Unobserve 7, Hide]) 0 = Some viewableTimer \<and>
   paused (run (newObserver [viewable])
        [Observe 7 None, Samples [sample 7 (3/5) 0], Unobserve 7, Hide, Tick 1000]) \<and>
   map (map (\<lambda>e. (target e, label e, entering e, duration e)))
     (calls (run (newObserver [viewable])
        [Observe 7 None, Samples [sample 7 (3/5) 0], Unobserve 7, Hide, Tick 1000, Timeout 0]))
   = [ [(7, ''viewable'', Some True, 1000)] ]"
  by code_simp

text \<open>
  Claim C6. When the page becomes hidden the observer is paused, and one callback
  invocation delivers the exit events: for each record of the store and each of its
  threshold states that is confirmed visible (\<open>lastSatisfied\<close>, and \<open>visible\<close> if the
  threshold has a time) one exit event with ratio -1, the empty rect as geometry and the
  current time, and no others; with none to deliver the callback is not invoked. Every
  threshold state of every record of the store then has \<open>lastSatisfied\<close> and \<open>visible\<close>
  false and \<open>lastEntry\<close> null, whether it gave an event or not, and no timer of such a
  state is pending any more. Hiding sets no timer: a timer still pending afterwards was
  pending before, on a record that is not in the store.
\<close>

theorem hide_forces_exits:
  "paused (onTabHidden (run (newObserver ths) evs)) \<and>
   queuedEntries (onTabHidden (run (newObserver ths) evs)) = [] \<and>
   recordStore (onTabHidden (run (newObserver ths) evs)) = recordStore (run (newObserver ths) evs) \<and>
   calls (onTabHidden (run (newObserver ths) evs)) =
     calls (run (newObserver ths) evs) @
       (if hideExits (run (newObserver ths) evs) = [] then []
        else [hideExits (run (newObserver ths) evs)]) \<and>
   (\<forall>k rid. (k, rid) \<in> set (recordStore (run (newObserver ths) evs)) \<longrightarrow>
      (\<exists>r. heap (run (newObserver ths) evs) rid = Some r \<and>
           heap (onTabHidden (run (newObserver ths) evs)) rid
             = Some (r\<lparr>thresholdStates := map reset (thresholdStates r)\<rparr>)) \<and>
      (\<forall>tid t. timers (onTabHidden (run (newObserver ths) evs)) tid = Some t \<longrightarrow> trid t \<noteq> rid)) \<and>
   (\<forall>tid t. timers (onTabHidden (run (newObserver ths) evs)) tid = Some t \<longrightarrow>
      timers (run (newObserver ths) evs) tid = Some t)"
proof -
  let ?W = "run (newObserver ths) evs"
  let ?P = "?W\<lparr>paused := True\<rparr>"
  let ?H = "onTabHidden ?W"
  have inv: "invariant ?W" by (rule reachable_invariant)
  then have invP: "invariant ?P" by simp
  then have s: "storeOK ?P" and q: "queuedEntries ?P = []" by (simp_all add: invariant_def)
  from inv have invH: "invariant ?H" by (rule onTabHidden_invariant)
  have H: "?H = setAllHidden ?P" by (simp add: onTabHidden_def)
  have k: "keeps ?P ?H"
    unfolding H setAllHidden_def
    by (rule keeps_trans [OF exitAll_keeps flushQueuedEntries_keeps])
  then have p1: "paused ?H" and p2: "recordStore ?H = recordStore ?W" by (simp_all add: keeps_def)
  from invH have p3: "queuedEntries ?H = []" by (simp add: invariant_def)
  have p4: "calls ?H = calls ?W @ (if hideExits ?W = [] then [] else [hideExits ?W])"
    using setAllHidden_result(1) [OF s q] by (simp add: H hideExits_def)
  have rec: "(\<exists>r. heap ?W rid = Some r \<and>
           heap ?H rid = Some (r\<lparr>thresholdStates := map reset (thresholdStates r)\<rparr>)) \<and>
      (\<forall>tid t. timers ?H tid = Some t \<longrightarrow> trid t \<noteq> rid)"
    if m: "(k, rid) \<in> set (recordStore ?W)" for k rid
  proof
    from m have "(k, rid) \<in> set (recordStore ?P)" by simp
    with s obtain r where r: "heap ?P rid = Some r" by (rule storeOK_recordAt)
    from m have "rid \<in> snd ` set (recordStore ?P)" by force
    with setAllHidden_result(2) [OF s q, of rid] r
    have h: "heap ?H rid = Some (resetAll r)" by (simp add: H)
    with r show "\<exists>r. heap ?W rid = Some r \<and>
           heap ?H rid = Some (r\<lparr>thresholdStates := map reset (thresholdStates r)\<rparr>)"
      by (simp add: resetAll_def)
    show "\<forall>tid t. timers ?H tid = Some t \<longrightarrow> trid t \<noteq> rid"
    proof (intro allI impI notI)
      fix tid t assume p: "timers ?H tid = Some t" and e: "trid t = rid"
      from invH have "timersOK ?H" by (simp add: invariant_def armedOK_def)
      from this p obtain r' where "heap ?H (trid t) = Some r'" "tidx t < length (thresholdStates r')"
        "armed tid t (thresholdStates r' ! tidx t)"
        by (rule timersOK_pending)
      with h e have "tidx t < length (thresholdStates r)"
        "lastSatisfied (map reset (thresholdStates r) ! tidx t)"
        by (auto simp: resetAll_def armed_def)
      then show False by (simp add: reset_def)
    qed
  qed
  from rec have "\<forall>k rid. (k, rid) \<in> set (recordStore ?W) \<longrightarrow>
      (\<exists>r. heap ?W rid = Some r \<and>
           heap ?H rid = Some (r\<lparr>thresholdStates := map reset (thresholdStates r)\<rparr>)) \<and>
      (\<forall>tid t. timers ?H tid = Some t \<longrightarrow> trid t \<noteq> rid)"
    by (intro allI impI)
  moreover have "\<forall>tid t. timers ?H tid = Some t \<longrightarrow> timers ?W tid = Some t"
    by (intro allI impI) (rule onTabHidden_timers)
  ultimately show ?thesis using p1 p2 p3 p4 by (intro conjI)
qed

theorem hide_forces_exits_witness:
  "(0, 0) \<in> set (recordStore glimpsed) \<and> timers glimpsed 0 \<noteq> None \<and>
   calls (onTabHidden glimpsed) =
     calls glimpsed @
       [ [\<lparr>intersectionRatio = - 1, time = 200, rootBounds = emptyRect,
          boundingClientRect = emptyRect, intersectionRect = emptyRect, target = 7,
          duration = 200, entering = Some False, label = ''50pct'', payload = None\<rparr>] ] \<and>
   timers (onTabHidden glimpsed) 0 = None \<and>
   (\<exists>r. heap glimpsed 0 = Some r \<and>
        heap (onTabHidden glimpsed) 0 = Some (r\<lparr>thresholdStates := map reset (thresholdStates r)\<rparr>))"
proof -
  have a: "(0, 0) \<in> set (recordStore glimpsed)" by code_simp
  have b: "timers glimpsed 0 \<noteq> None" by code_simp
  have c: "hideExits glimpsed =
       [\<lparr>intersectionRatio = - 1, time = 200, rootBounds = emptyRect,
          boundingClientRect = emptyRect, intersectionRect = emptyRect, target = 7,
          duration = 200, entering = Some False, label = ''50pct'', payload = None\<rparr>]"
    by code_simp
  have b': "map_option trid (timers glimpsed 0) = Some 0" by code_simp
  note h = hide_forces_exits [of "[plain ''50pct'' (1/2), viewable]"
      "[Observe 7 None, Samples [sample 7 (3/5) 0], Tick 200]", folded glimpsed_def]
  from h have "calls (onTabHidden glimpsed) =
     calls glimpsed @ (if hideExits glimpsed = [] then [] else [hideExits glimpsed])"
    by (elim conjE)
  with c have e: "calls (onTabHidden glimpsed) =
     calls glimpsed @
       [ [\<lparr>intersectionRatio = - 1, time = 200, rootBounds = emptyRect,
          boundingClientRect = emptyRect, intersectionRect = emptyRect, target = 7,
          duration = 200, entering = Some False, label = ''50pct'', payload = None\<rparr>] ]"
    by simp
  from h a have f: "\<exists>r. heap glimpsed 0 = Some r \<and>
        heap (onTabHidden glimpsed) 0 = Some (r\<lparr>thresholdStates := map reset (thresholdStates r)\<rparr>)"
    by blast
  have d: "timers (onTabHidden glimpsed) 0 = None"
  proof (rule ccontr)
    assume "timers (onTabHidden glimpsed) 0 \<noteq> None"
    then obtain t where t: "timers (onTabHidden glimpsed) 0 = Some t" by blast
    with h have "timers glimpsed 0 = Some t" by blast
    with b' have "trid t = 0" by simp
    moreover from h a t have "trid t \<noteq> 0" by blast
    ultimately show False by simp
  qed
  from a b e d f show ?thesis by (intro conjI)
qed

section \<open>Samples while paused\<close>

lemma paused_handleObserverEntry:
  assumes "paused w"
  shows "calls (after (handleObserverEntry entry w)) = calls w \<and>
         queuedEntries (after (handleObserverEntry entry w)) = queuedEntries w \<and>
         timers (after (handleObserverEntry entry w)) = timers w \<and>
         paused (after (handleObserverEntry entry w)) \<and>
         stateAt (after (handleObserverEntry entry w)) = stateAt w"
proof (cases "recordOf w (target entry)")
  case None
  with assms show ?thesis by (simp add: handleObserverEntry_throws)
next
  case (Some p)
  obtain rid r0 where p: "p = (rid, r0)" by (cases p)
  with Some have r: "recordOf w (target entry) = Some (rid, r0)" by simp
  then have "heap w rid = Some r0" by (rule recordOf_heap)
  then have "stateAt (w\<lparr>heap := (heap w)(rid \<mapsto> r0\<lparr>lastSeenEntry := Some entry\<rparr>)\<rparr>) = stateAt w"
    by (auto simp: stateAt_def fun_eq_iff)
  with assms show ?thesis
    by (simp add: handleObserverEntry_paused [OF assms r])
qed

text \<open>
  Claim C7. While the observer is paused, the samples that the intersection primitive
  delivers are not processed: after a batch, whether it ends normally or in a throw, the
  callback has not been invoked, nothing is queued, no timer has been set or cleared, no
  threshold state has changed, and the observer is still paused.
\<close>

theorem paused_samples_not_processed:
  "paused w \<Longrightarrow>
     calls (after (internalCallback records w)) = calls w \<and>
     queuedEntries (after (internalCallback records w)) = queuedEntries w \<and>
     timers (after (internalCallback records w)) = timers w \<and>
     paused (after (internalCallback records w)) \<and>
     (\<forall>rid i. stateAt (after (internalCallback records w)) rid i = stateAt w rid i)"
proof (induction records arbitrary: w)
  case Nil
  then show ?case by simp
next
  case (Cons entry records)
  note h = paused_handleObserverEntry [OF Cons.prems, of entry]
  show ?case
  proof (cases "handleObserverEntry entry w")
    case (Inl err)
    with h show ?thesis by simp
  next
    case (Inr w')
    with h have "paused w'" by simp
    from Cons.IH [OF this] h Inr show ?thesis by simp
  qed
qed

theorem paused_samples_not_processed_witness:
  "paused (run (newObserver [plain ''50pct'' (1/2)]) [Observe 7 None, Hide]) \<and>
   calls (after (internalCallback [sample 7 (3/5) 2000]
            (run (newObserver [plain ''50pct'' (1/2)]) [Observe 7 None, Hide]))) = [] \<and>
   stateAt (after (internalCallback [sample 7 (3/5) 2000]
            (run (newObserver [plain ''50pct'' (1/2)]) [Observe 7 None, Hide]))) 0 0
     = stateAt (run (newObserver [plain ''50pct'' (1/2)]) [Observe 7 None, Hide]) 0 0 \<and>
   map_option lastSatisfied (stateAt (run (newObserver [plain ''50pct'' (1/2)]) [Observe 7 None, Hide]) 0 0)
     = Some False"
proof -
  have h: "paused (run (newObserver [plain ''50pct'' (1/2)]) [Observe 7 None, Hide])"
    by code_simp
  have c: "calls (run (newObserver [plain ''50pct'' (1/2)]) [Observe 7 None, Hide]) = []"
    by code_simp
  have s: "map_option lastSatisfied (stateAt (run (newObserver [plain ''50pct'' (1/2)]) [Observe 7 None, Hide]) 0 0)
     = Some False"
    by code_simp
  from paused_samples_not_processed [OF h, of "[sample 7 (3/5) 2000]"] h c s
  show ?thesis by simp
qed

section \<open>Showing the page after samples arrived while hidden\<close>


lemma handledRecord_seen [simp]: "lastSeenEntry (handledRecord entry rid r0 w) = Some entry"
  by (simp add: handledRecord_def seen_def)











section \<open>One pending timer per threshold state\<close>

lemma observeState_sets_timer:
  assumes "timers (snd (observeState entry rid r i s w)) tid = Some t" "timers w tid \<noteq> Some t"
  shows "entrySatisfiesRatio entry (t_ratio (threshold s)) \<and> \<not> lastSatisfied s \<and>
         hasTime (threshold s) \<and> tid = nextTimer w \<and> trid t = rid \<and> tidx t = i"
  using assms
  by (auto simp: observeState_eq clearTimeout_def split: if_splits option.splits)

lemma exitState_sets_no_timer:
  "timers (snd (exitState r tm i s w)) tid = Some t \<Longrightarrow> timers w tid = Some t"
  by (auto simp: exitState_eq clearTimeout_def split: if_splits option.splits)

text \<open>
  Claim C9. At any time a threshold state has at most one pending timer: two pending
  timers whose closures hold the same state object are the same timer, and the state of
  a pending timer has \<open>lastSatisfied\<close> true and belongs to a threshold with a time, so
  that no rising edge can set a second one. A timer is only set by the handling of a
  sample, for a threshold with a time, when the ratio is satisfied and \<open>lastSatisfied\<close>
  was false; the forced exit sets none.
\<close>

theorem one_pending_timer_per_state:
  "(timers (run (newObserver ths) evs) tid1 = Some t1 \<and>
    timers (run (newObserver ths) evs) tid2 = Some t2 \<and>
    trid t1 = trid t2 \<and> tidx t1 = tidx t2 \<longrightarrow>
      tid1 = tid2 \<and>
      (\<exists>s. stateAt (run (newObserver ths) evs) (trid t1) (tidx t1) = Some s \<and>
           lastSatisfied s \<and> hasTime (threshold s) \<and> timeoutId s = Some tid1)) \<and>
   (timers (snd (observeState entry rid r i s0 w0)) tid = Some t \<and> timers w0 tid \<noteq> Some t \<longrightarrow>
      entrySatisfiesRatio entry (t_ratio (threshold s0)) \<and> \<not> lastSatisfied s0 \<and>
      hasTime (threshold s0) \<and> trid t = rid \<and> tidx t = i) \<and>
   (timers (snd (exitState r' tm i' s1 w1)) tid' = Some t' \<longrightarrow> timers w1 tid' = Some t')"
proof -
  let ?W = "run (newObserver ths) evs"
  have ok: "timersOK ?W"
    using reachable_invariant [of ths evs] by (simp add: invariant_def armedOK_def)
  have one: "tid1 = tid2 \<and>
      (\<exists>s. stateAt ?W (trid t1) (tidx t1) = Some s \<and>
           lastSatisfied s \<and> hasTime (threshold s) \<and> timeoutId s = Some tid1)"
    if a: "timers ?W tid1 = Some t1 \<and> timers ?W tid2 = Some t2 \<and> trid t1 = trid t2 \<and> tidx t1 = tidx t2"
  proof
    from ok a show "tid1 = tid2" by (auto intro: timersOK_same_state)
    from a have "timers ?W tid1 = Some t1" by simp
    with ok have "\<exists>s. stateAt ?W (trid t1) (tidx t1) = Some s \<and> armed tid1 t1 s"
      unfolding timersOK_def by blast
    then show "\<exists>s. stateAt ?W (trid t1) (tidx t1) = Some s \<and>
           lastSatisfied s \<and> hasTime (threshold s) \<and> timeoutId s = Some tid1"
      by (auto simp: armed_def)
  qed
  have set: "entrySatisfiesRatio entry (t_ratio (threshold s0)) \<and> \<not> lastSatisfied s0 \<and>
      hasTime (threshold s0) \<and> trid t = rid \<and> tidx t = i"
    if "timers (snd (observeState entry rid r i s0 w0)) tid = Some t \<and> timers w0 tid \<noteq> Some t"
    using that observeState_sets_timer [of entry rid r i s0 w0 tid t] by simp
  have none: "timers w1 tid' = Some t'" if "timers (snd (exitState r' tm i' s1 w1)) tid' = Some t'"
    using that by (rule exitState_sets_no_timer)
  from one set none show ?thesis by blast
qed

theorem one_pending_timer_per_state_witness:
  "timers (run (newObserver [viewable]) [Observe 7 None, Samples [sample 7 (3/5) 0] ]) 0
     = Some viewableTimer \<and>
   (\<exists>s. stateAt (run (newObserver [viewable]) [Observe 7 None, Samples [sample 7 (3/5) 0] ]) 0 0 = Some s \<and>
        lastSatisfied s \<and> hasTime (threshold s) \<and> timeoutId s = Some 0) \<and>
   timers (snd (observeState (sample 7 (3/5) 0) 0 (freshRecord 7 None [viewable]) 0
                  (thresholdStates (freshRecord 7 None [viewable]) ! 0) (newObserver [viewable]))) 0
     = Some viewableTimer \<and>
   timers (newObserver [viewable]) 0 \<noteq> Some viewableTimer \<and>
   entrySatisfiesRatio (sample 7 (3/5) 0) (t_ratio viewable) \<and>
   timers (snd (exitState (freshRecord 7 None [viewable]) 5 0
                  (thresholdStates (freshRecord 7 None [viewable]) ! 0) dwelling)) 0
     = Some viewableTimer"
proof -
  let ?W = "run (newObserver [viewable]) [Observe 7 None, Samples [sample 7 (3/5) 0] ]"
  let ?r = "freshRecord 7 None [viewable]"
  have a: "timers ?W 0 = Some viewableTimer"
    using dwelling_timer by (simp add: dwelling_def)
  have b: "timers (snd (observeState (sample 7 (3/5) 0) 0 ?r 0 (thresholdStates ?r ! 0) (newObserver [viewable]))) 0
     = Some viewableTimer" by code_simp
  have c: "timers (newObserver [viewable]) 0 \<noteq> Some viewableTimer" by code_simp
  have d: "timers (snd (exitState ?r 5 0 (thresholdStates ?r ! 0) dwelling)) 0 = Some viewableTimer"
    by code_simp
  have e: "threshold (thresholdStates ?r ! 0) = viewable" by code_simp
  from one_pending_timer_per_state [of "[viewable]" "[Observe 7 None, Samples [sample 7 (3/5) 0] ]"
      0 viewableTimer 0 viewableTimer "sample 7 (3/5) 0" 0 ?r 0 "thresholdStates ?r ! 0"
      "newObserver [viewable]" 0 viewableTimer ?r 5 0 "thresholdStates ?r ! 0" dwelling 0 viewableTimer]
    a b c d e
  show ?thesis by (simp add: viewableTimer_def)
qed

section \<open>Unobserving an element without a record\<close>

text \<open>
  Claim C10. \<open>unobserve\<close> on an element that has no record (never observed, or already
  unobserved) does nothing: it does not throw, the callback is not invoked, no work is
  scheduled, and the record store and every record stay as they were.
\<close>

theorem unobserve_untracked_noop:
  "recordOf w element = None \<Longrightarrow> step w (Unobserve element) = Inr w"
  by (simp add: unobserve_def)

theorem unobserve_untracked_noop_witness:
  "recordOf (run (newObserver [plain ''50pct'' (1/2)]) [Observe 7 None, Unobserve 7]) 7 = None
   \<and> step (run (newObserver [plain ''50pct'' (1/2)]) [Observe 7 None, Unobserve 7]) (Unobserve 7)
       = Inr (run (newObserver [plain ''50pct'' (1/2)]) [Observe 7 None, Unobserve 7])"
proof -
  have h: "recordOf (run (newObserver [plain ''50pct'' (1/2)]) [Observe 7 None, Unobserve 7]) 7 = None"
    by code_simp
  show ?thesis
    using h unobserve_untracked_noop [OF h] by simp
qed

end
